theory Spec2Isabelle
  imports Main "HOL-Library.Word"
begin

section \<open>Pattern-dictionary feed: data model\<close>

text \<open>
  A shallow embedding of \<^verbatim>\<open>src/feeds/feed_pattern_dict.c\<close> and its header.
  The C integer types are words of their width, so every addition, multiplication and
  cast wraps or truncates as the C does. Loop counters that are bounded by a value of
  their own type (\<^verbatim>\<open>i < n\<close> with \<^verbatim>\<open>i\<close> and \<^verbatim>\<open>n\<close> of one type) cannot wrap and
  are natural numbers. \<^verbatim>\<open>size_t\<close> is 64 bits wide.
\<close>

type_synonym u8 = "8 word"
type_synonym u32 = "32 word"
type_synonym u64 = "64 word"

definition PATTERN_MAX_POSITIONS :: nat where
  "PATTERN_MAX_POSITIONS = 32"

definition CS_LOWER_LEN :: nat where "CS_LOWER_LEN = 26"
definition CS_UPPER_LEN :: nat where "CS_UPPER_LEN = 26"
definition CS_DIGIT_LEN :: nat where "CS_DIGIT_LEN = 10"
definition CS_SPECIAL_LEN :: nat where "CS_SPECIAL_LEN = 33"
definition CS_HEX_LOW_LEN :: nat where "CS_HEX_LOW_LEN = 16"
definition CS_HEX_UP_LEN :: nat where "CS_HEX_UP_LEN = 16"
definition CS_BINARY_LEN :: nat where "CS_BINARY_LEN = 256"
definition CS_ALL_LEN :: nat where
  "CS_ALL_LEN = CS_LOWER_LEN + CS_UPPER_LEN + CS_DIGIT_LEN + CS_SPECIAL_LEN"
definition CS_CUSTOM_MAX :: nat where "CS_CUSTOM_MAX = 256"
definition CUSTOM_CHARSET_COUNT :: nat where "CUSTOM_CHARSET_COUNT = 4"

definition UINT64_MAX :: u64 where
  "UINT64_MAX = 18446744073709551615"

text \<open>\<^verbatim>\<open>SIZE_MAX\<close> of a platform whose \<^verbatim>\<open>size_t\<close> has 64 bits.\<close>

definition SIZE_MAX :: nat where
  "SIZE_MAX = 18446744073709551615"

datatype pattern_pos_type =
    POS_LOWER | POS_UPPER | POS_DIGIT | POS_SPECIAL | POS_ALL | POS_HEX_LOW | POS_HEX_UP
  | POS_BINARY | POS_CUSTOM_1 | POS_CUSTOM_2 | POS_CUSTOM_3 | POS_CUSTOM_4
  | POS_WORD | POS_LITERAL

text \<open>
  \<^verbatim>\<open>pattern_position_t\<close>. The field \<^verbatim>\<open>charset\<close> is a pointer in the C; here it is
  the array it points to (\<open>None\<close> for \<^verbatim>\<open>NULL\<close>), as that array stands when the
  position is compiled: the registry is not written to after \<^verbatim>\<open>parse_pattern\<close>.
\<close>

record pattern_position =
  pos_type :: pattern_pos_type
  literal_char :: u8
  charset_len :: u32
  charset :: "u8 list option"

text \<open>
  Undefined behaviour of the C (a trap or a wild access) is a value of the model, so
  that a theorem saying a call returns also says the call is defined.
\<close>

datatype fault = DivisionByZero | OutOfBoundsRead | OutOfBoundsWrite | NullDereference

text \<open>One constructor for each call of \<^verbatim>\<open>error_set\<close>, with the arguments of its format.\<close>

datatype pd_error =
    InvalidCustomCharsetIndex int
  | CustomCharsetQuestionAtEnd
  | CustomCharsetReferencedBeforeDefinition char
  | InvalidSpecifierInCustomCharset char
  | CustomCharsetEmpty int
  | PatternTooLong
  | PatternQuestionAtEnd
  | CustomCharsetNotDefined nat
  | OnlyOneWordAllowed
  | InvalidPatternCharacter char
  | WordPlaceholderRequired
  | WordlistEmpty
  | WordlistTooLarge u64
  | MissingOptionValue string
  | Usage
  | WordlistUnreadable
  | WordlistEmptyFile
  | SeekPastKeyspace u64 u64
  | UndefinedBehaviour fault

text \<open>\<^verbatim>\<open>pd_feed_global_t\<close>: arrays are lists of the array's length.\<close>

record pd_feed_global =
  pattern :: string
  wordlist :: string
  positions :: "pattern_position list"
  num_positions :: u32
  word_position :: u32
  prefix_len :: u32
  suffix_len :: u32
  cs_lower :: "u8 list"
  cs_upper :: "u8 list"
  cs_digit :: "u8 list"
  cs_special :: "u8 list"
  cs_hex_low :: "u8 list"
  cs_hex_up :: "u8 list"
  cs_binary :: "u8 list"
  cs_all :: "u8 list"
  cs_custom :: "u8 list list"
  cs_custom_len :: "u32 list"
  cs_custom_defined :: "bool list"
  word_count :: u64
  mask_keyspace :: u64
  total_keyspace :: u64
  word_offsets :: "u64 list"
  word_lengths :: "u32 list"
  file_size :: u64

text \<open>\<^verbatim>\<open>pd_feed_thread_t\<close>, without the file handle; \<open>fd_mem\<close> is the mapped word list.\<close>

record pd_feed_thread =
  fd_mem :: "u8 list"
  current_word_idx :: u64
  current_mask_idx :: u64
  current_offset :: u64
  mask_indices :: "u32 list"

text \<open>The two fields of \<^verbatim>\<open>generic_global_ctx_t\<close> that \<^verbatim>\<open>error_set\<close> writes.\<close>

record generic_global_ctx =
  error :: bool
  error_msg :: "pd_error option"

definition error_set :: "generic_global_ctx \<Rightarrow> pd_error \<Rightarrow> generic_global_ctx" where
  "error_set global_ctx e = global_ctx\<lparr>error := True, error_msg := Some e\<rparr>"

section \<open>Keyspace model\<close>

text \<open>
  \<^verbatim>\<open>calculate_mask_keyspace\<close>: the loop over \<^verbatim>\<open>i = 0 .. num_positions - 1\<close> with its
  early return on overflow.
\<close>

function calculate_mask_keyspace_loop :: "pd_feed_global \<Rightarrow> nat \<Rightarrow> u64 \<Rightarrow> u64" where
  "calculate_mask_keyspace_loop ctx i keyspace =
     (if i < unat (num_positions ctx) then
        (if pos_type (positions ctx ! i) \<noteq> POS_WORD then
           (let cs_len = (ucast (charset_len (positions ctx ! i)) :: u64) in
            if keyspace > 0 \<and> cs_len > UINT64_MAX div keyspace then UINT64_MAX
            else calculate_mask_keyspace_loop ctx (i + 1) (keyspace * cs_len))
         else calculate_mask_keyspace_loop ctx (i + 1) keyspace)
      else keyspace)"
  by pat_completeness auto
termination
  by (relation "measure (\<lambda>(ctx, i, keyspace). unat (num_positions ctx) - i)") auto

definition calculate_mask_keyspace :: "pd_feed_global \<Rightarrow> u64" where
  "calculate_mask_keyspace ctx = calculate_mask_keyspace_loop ctx 0 1"

text \<open>
  Lines 744 to 755 of \<^verbatim>\<open>global_keyspace\<close>: the two keyspace fields, from the
  compiled pattern and the word count.
\<close>

definition set_keyspace :: "pd_feed_global \<Rightarrow> pd_feed_global" where
  "set_keyspace ctx =
     (let ctx1 = ctx\<lparr>mask_keyspace := calculate_mask_keyspace ctx\<rparr> in
      if mask_keyspace ctx1 > 0 \<and> word_count ctx1 > UINT64_MAX div mask_keyspace ctx1
      then ctx1\<lparr>total_keyspace := UINT64_MAX\<rparr>
      else ctx1\<lparr>total_keyspace := word_count ctx1 * mask_keyspace ctx1\<rparr>)"

text \<open>
  \<^verbatim>\<open>index_to_mask_indices\<close>: the loop runs \<^verbatim>\<open>i\<close> from \<^verbatim>\<open>(int)num_positions - 1\<close>
  down to 0; the first argument of the loop function is \<^verbatim>\<open>i + 1\<close>. A remainder by a
  charset length of zero traps.
\<close>

fun index_to_mask_indices_loop ::
  "pattern_position list \<Rightarrow> nat \<Rightarrow> u64 \<Rightarrow> u32 list \<Rightarrow> fault + u32 list" where
  "index_to_mask_indices_loop ps 0 remaining indices = Inr indices"
| "index_to_mask_indices_loop ps (Suc i) remaining indices =
     (if length ps \<le> i then Inl OutOfBoundsRead
      else if length indices \<le> i then Inl OutOfBoundsWrite
      else if pos_type (ps ! i) = POS_WORD
      then index_to_mask_indices_loop ps i remaining (indices[i := 0])
      else
        (let cs_len = charset_len (ps ! i) in
         if cs_len = 0 then Inl DivisionByZero
         else index_to_mask_indices_loop ps i (remaining div ucast cs_len)
                (indices[i := ucast (remaining mod ucast cs_len)])))"

definition index_to_mask_indices ::
  "pd_feed_global \<Rightarrow> u64 \<Rightarrow> u32 list \<Rightarrow> fault + u32 list" where
  "index_to_mask_indices ctx mask_idx indices =
     index_to_mask_indices_loop (positions ctx) (nat (sint (num_positions ctx))) mask_idx indices"

section \<open>Candidate generator\<close>

definition read_charset :: "pattern_position \<Rightarrow> u32 \<Rightarrow> fault + u8" where
  "read_charset pos idx =
     (case charset pos of
        None \<Rightarrow> Inl NullDereference
      | Some cs \<Rightarrow> if unat idx < length cs then Inr (cs ! unat idx) else Inl OutOfBoundsRead)"

text \<open>
  The body shared by the prefix and the suffix loop:
  \<^verbatim>\<open>out_buf[out_len++] = pos->charset[tctx->mask_indices[i]]\<close>. The output buffer is a
  list as long as the caller's buffer, and a store beyond it is a fault.
\<close>

definition emit_position ::
  "pd_feed_global \<Rightarrow> pd_feed_thread \<Rightarrow> nat \<Rightarrow> u8 list \<times> u32 \<Rightarrow> fault + (u8 list \<times> u32)" where
  "emit_position ctx tctx i st =
     (case st of (out_buf, out_len) \<Rightarrow>
        if length (positions ctx) \<le> i \<or> length (mask_indices tctx) \<le> i then Inl OutOfBoundsRead
        else
          (case read_charset (positions ctx ! i) (mask_indices tctx ! i) of
             Inl f \<Rightarrow> Inl f
           | Inr c \<Rightarrow>
               if length out_buf \<le> unat out_len then Inl OutOfBoundsWrite
               else Inr (out_buf[unat out_len := c], out_len + 1)))"

function generate_prefix ::
  "pd_feed_global \<Rightarrow> pd_feed_thread \<Rightarrow> nat \<Rightarrow> u8 list \<times> u32 \<Rightarrow> fault + (u8 list \<times> u32)" where
  "generate_prefix ctx tctx i st =
     (if i < unat (word_position ctx) then
        (case emit_position ctx tctx i st of
           Inl f \<Rightarrow> Inl f
         | Inr st' \<Rightarrow> generate_prefix ctx tctx (i + 1) st')
      else Inr st)"
  by pat_completeness auto
termination
  by (relation "measure (\<lambda>(ctx, tctx, i, st). unat (word_position ctx) - i)") auto

text \<open>\<open>pw_max\<close> is the macro \<^verbatim>\<open>PW_MAX\<close> of the host's headers, taken as a parameter.\<close>

function generate_suffix ::
  "u32 \<Rightarrow> pd_feed_global \<Rightarrow> pd_feed_thread \<Rightarrow> nat \<Rightarrow> u8 list \<times> u32 \<Rightarrow> fault + (u8 list \<times> u32)" where
  "generate_suffix pw_max ctx tctx i st =
     (if i < unat (num_positions ctx) then
        (if snd st \<ge> pw_max then Inr st
         else
           (case emit_position ctx tctx i st of
              Inl f \<Rightarrow> Inl f
            | Inr st' \<Rightarrow> generate_suffix pw_max ctx tctx (i + 1) st'))
      else Inr st)"
  by pat_completeness auto
termination
  by (relation "measure (\<lambda>(pw_max, ctx, tctx, i, st). unat (num_positions ctx) - i)") auto

text \<open>\<^verbatim>\<open>memcpy (dst + d, src + s, n)\<close> between two distinct arrays.\<close>

definition memcpy_at :: "u8 list \<Rightarrow> nat \<Rightarrow> u8 list \<Rightarrow> nat \<Rightarrow> nat \<Rightarrow> fault + u8 list" where
  "memcpy_at dst d src s n =
     (if length src < s + n then Inl OutOfBoundsRead
      else if length dst < d + n then Inl OutOfBoundsWrite
      else Inr (take d dst @ take n (drop s src) @ drop (d + n) dst))"

text \<open>
  \<^verbatim>\<open>generate_candidate\<close> returns the output buffer after the call and the value
  returned, \<^verbatim>\<open>(int)out_len\<close>.
\<close>

definition generate_candidate ::
  "u32 \<Rightarrow> pd_feed_global \<Rightarrow> pd_feed_thread \<Rightarrow> u8 list \<Rightarrow> u8 list \<Rightarrow> fault + (u8 list \<times> int)" where
  "generate_candidate pw_max ctx tctx fd out_buf =
     (let word_idx = unat (current_word_idx tctx) in
      if length (word_offsets ctx) \<le> word_idx \<or> length (word_lengths ctx) \<le> word_idx
      then Inl OutOfBoundsRead
      else
        (let word_off = word_offsets ctx ! word_idx;
             word_len = word_lengths ctx ! word_idx
         in case generate_prefix ctx tctx 0 (out_buf, 0) of
              Inl f \<Rightarrow> Inl f
            | Inr (out_buf1, out_len1) \<Rightarrow>
                (let word_len' = (if out_len1 + word_len > pw_max then pw_max - out_len1
                                  else word_len)
                 in case memcpy_at out_buf1 (unat out_len1) fd (unat word_off) (unat word_len') of
                      Inl f \<Rightarrow> Inl f
                    | Inr out_buf2 \<Rightarrow>
                        (case generate_suffix pw_max ctx tctx (unat (word_position ctx + 1))
                                (out_buf2, out_len1 + word_len') of
                           Inl f \<Rightarrow> Inl f
                         | Inr (out_buf3, out_len3) \<Rightarrow> Inr (out_buf3, sint out_len3)))))"

section \<open>Enumeration cursor\<close>

definition advance_position :: "pd_feed_thread \<Rightarrow> pd_feed_global \<Rightarrow> fault + pd_feed_thread" where
  "advance_position tctx ctx =
     (let t1 = tctx\<lparr>current_mask_idx := current_mask_idx tctx + 1\<rparr>;
          t2 = (if current_mask_idx t1 \<ge> mask_keyspace ctx
                then t1\<lparr>current_mask_idx := 0, current_word_idx := current_word_idx t1 + 1\<rparr>
                else t1)
      in case (if current_word_idx t2 < word_count ctx
               then index_to_mask_indices ctx (current_mask_idx t2) (mask_indices t2)
               else Inr (mask_indices t2)) of
           Inl f \<Rightarrow> Inl f
         | Inr ind \<Rightarrow> Inr (t2\<lparr>mask_indices := ind, current_offset := current_offset t2 + 1\<rparr>))"

text \<open>
  \<^verbatim>\<open>thread_next\<close> returns the value returned, the cursor and the output buffer after
  the call.
\<close>

definition thread_next ::
  "u32 \<Rightarrow> pd_feed_global \<Rightarrow> pd_feed_thread \<Rightarrow> u8 list \<Rightarrow> fault + (int \<times> pd_feed_thread \<times> u8 list)" where
  "thread_next pw_max ctx tctx out_buf =
     (if current_word_idx tctx \<ge> word_count ctx then Inr (0, tctx, out_buf)
      else
        (case generate_candidate pw_max ctx tctx (fd_mem tctx) out_buf of
           Inl f \<Rightarrow> Inl f
         | Inr (out_buf', out_len) \<Rightarrow>
             (case advance_position tctx ctx of
                Inl f \<Rightarrow> Inl f
              | Inr tctx' \<Rightarrow> Inr (out_len, tctx', out_buf'))))"

text \<open>
  \<^verbatim>\<open>thread_seek\<close> returns the value returned, the host context (where
  \<^verbatim>\<open>error_set\<close> writes) and the cursor after the call. A division by a mask keyspace
  of zero traps.
\<close>

definition thread_seek ::
  "generic_global_ctx \<Rightarrow> pd_feed_global \<Rightarrow> pd_feed_thread \<Rightarrow> u64 \<Rightarrow>
   fault + (bool \<times> generic_global_ctx \<times> pd_feed_thread)" where
  "thread_seek global_ctx ctx tctx offset =
     (if offset \<ge> total_keyspace ctx
      then Inr (False, error_set global_ctx (SeekPastKeyspace offset (total_keyspace ctx)), tctx)
      else if mask_keyspace ctx = 0 then Inl DivisionByZero
      else
        (let t1 = tctx\<lparr>current_word_idx := offset div mask_keyspace ctx,
                        current_mask_idx := offset mod mask_keyspace ctx,
                        current_offset := offset\<rparr>
         in case index_to_mask_indices ctx (current_mask_idx t1) (mask_indices t1) of
              Inl f \<Rightarrow> Inl f
            | Inr ind \<Rightarrow> Inr (True, global_ctx, t1\<lparr>mask_indices := ind\<rparr>)))"

section \<open>Word index\<close>

text \<open>\<^verbatim>\<open>count_words\<close>: the byte 10 is the newline.\<close>

primrec count_newlines :: "u8 list \<Rightarrow> u64 \<Rightarrow> u64" where
  "count_newlines [] count = count"
| "count_newlines (b # bs) count = count_newlines bs (if b = 10 then count + 1 else count)"

definition count_words :: "u8 list \<Rightarrow> u64" where
  "count_words data =
     (let count = count_newlines data 0 in
      if length data > 0 \<and> data ! (length data - 1) \<noteq> 10 then count + 1 else count)"

text \<open>
  The trimmed length of the line that starts at \<open>line_start\<close> and has \<open>line_len\<close>
  bytes: one trailing carriage return (byte 13) is dropped.
\<close>

definition strip_cr :: "u8 list \<Rightarrow> nat \<Rightarrow> nat \<Rightarrow> nat" where
  "strip_cr data line_start line_len =
     (if line_len > 0 \<and> data ! (line_start + line_len - 1) = 13 then line_len - 1 else line_len)"

text \<open>
  The stores \<^verbatim>\<open>ctx->word_offsets[word_idx] = line_start\<close> and
  \<^verbatim>\<open>ctx->word_lengths[word_idx] = (u32)line_len\<close>; a store outside the allocated
  tables is a fault.
\<close>

definition record_word ::
  "nat \<Rightarrow> nat \<Rightarrow> nat \<Rightarrow> u64 list \<times> u32 list \<Rightarrow> fault + (u64 list \<times> u32 list)" where
  "record_word word_idx line_start line_len tabs =
     (case tabs of (offs, lens) \<Rightarrow>
        if length offs \<le> word_idx \<or> length lens \<le> word_idx then Inl OutOfBoundsWrite
        else Inr (offs[word_idx := of_nat line_start], lens[word_idx := of_nat line_len]))"

text \<open>The second pass: the state is \<^verbatim>\<open>word_idx\<close>, \<^verbatim>\<open>line_start\<close> and the two tables.\<close>

function record_lines ::
  "u8 list \<Rightarrow> nat \<Rightarrow> nat \<Rightarrow> nat \<Rightarrow> u64 list \<times> u32 list \<Rightarrow>
   fault + (nat \<times> nat \<times> u64 list \<times> u32 list)" where
  "record_lines data i word_idx line_start tabs =
     (if i < length data then
        (if data ! i = 10 then
           (case record_word word_idx line_start (strip_cr data line_start (i - line_start)) tabs of
              Inl f \<Rightarrow> Inl f
            | Inr tabs' \<Rightarrow> record_lines data (i + 1) (word_idx + 1) (i + 1) tabs')
         else record_lines data (i + 1) word_idx line_start tabs)
      else Inr (word_idx, line_start, tabs))"
  by pat_completeness auto
termination
  by (relation "measure (\<lambda>(data, i, word_idx, line_start, tabs). length data - i)") auto

text \<open>
  \<^verbatim>\<open>build_word_index\<close>. \<^verbatim>\<open>hcmalloc\<close> is the host's allocator, which returns
  zeroed memory and does not return \<^verbatim>\<open>NULL\<close>.
\<close>

definition build_word_index :: "pd_feed_global \<Rightarrow> u8 list \<Rightarrow> pd_error + pd_feed_global" where
  "build_word_index ctx data =
     (let ctx1 = ctx\<lparr>word_count := count_words data\<rparr> in
      if word_count ctx1 = 0 then Inl WordlistEmpty
      else if unat (word_count ctx1) > SIZE_MAX div 8 then Inl (WordlistTooLarge (word_count ctx1))
      else
        (let offs = replicate (unat (word_count ctx1)) 0;
             lens = replicate (unat (word_count ctx1)) 0
         in case record_lines data 0 0 0 (offs, lens) of
              Inl f \<Rightarrow> Inl (UndefinedBehaviour f)
            | Inr (word_idx, line_start, tabs) \<Rightarrow>
                (if line_start < length data then
                   (case record_word word_idx line_start
                           (strip_cr data line_start (length data - line_start)) tabs of
                      Inl f \<Rightarrow> Inl (UndefinedBehaviour f)
                    | Inr (offs', lens') \<Rightarrow>
                        Inr (ctx1\<lparr>word_offsets := offs', word_lengths := lens'\<rparr>))
                 else Inr (ctx1\<lparr>word_offsets := fst tabs, word_lengths := snd tabs\<rparr>))))"

section \<open>Charset registry\<close>

definition CHARSET_LOWER :: "u8 list" where
  "CHARSET_LOWER = map of_char ''abcdefghijklmnopqrstuvwxyz''"

definition CHARSET_UPPER :: "u8 list" where
  "CHARSET_UPPER = map of_char ''ABCDEFGHIJKLMNOPQRSTUVWXYZ''"

definition CHARSET_DIGIT :: "u8 list" where
  "CHARSET_DIGIT = map of_char ''0123456789''"

text \<open>
  The 33 bytes of \<^verbatim>\<open>CHARSET_SPECIAL\<close> by their codes: the space to the slash, the
  colon to the at sign, the opening bracket to the backquote, the opening brace to the
  tilde.
\<close>

definition CHARSET_SPECIAL :: "u8 list" where
  "CHARSET_SPECIAL =
     [32, 33, 34, 35, 36, 37, 38, 39, 40, 41, 42, 43, 44, 45, 46, 47,
      58, 59, 60, 61, 62, 63, 64,
      91, 92, 93, 94, 95, 96,
      123, 124, 125, 126]"

definition CHARSET_HEX_LOW :: "u8 list" where
  "CHARSET_HEX_LOW = map of_char ''0123456789abcdef''"

definition CHARSET_HEX_UP :: "u8 list" where
  "CHARSET_HEX_UP = map of_char ''0123456789ABCDEF''"

text \<open>\<^verbatim>\<open>CHARSET_BINARY\<close> as \<^verbatim>\<open>init_charsets\<close> fills it: the bytes 0 to 255.\<close>

definition CHARSET_BINARY :: "u8 list" where
  "CHARSET_BINARY = map of_nat [0..<CS_BINARY_LEN]"

text \<open>The context after \<^verbatim>\<open>memset (ctx, 0, sizeof (pd_feed_global_t))\<close>.\<close>

definition zero_position :: pattern_position where
  "zero_position = \<lparr>pos_type = POS_LOWER, literal_char = 0, charset_len = 0, charset = None\<rparr>"

definition zero_global :: pd_feed_global where
  "zero_global =
     \<lparr>pattern = [], wordlist = [],
      positions = replicate PATTERN_MAX_POSITIONS zero_position,
      num_positions = 0, word_position = 0, prefix_len = 0, suffix_len = 0,
      cs_lower = replicate CS_LOWER_LEN 0, cs_upper = replicate CS_UPPER_LEN 0,
      cs_digit = replicate CS_DIGIT_LEN 0, cs_special = replicate CS_SPECIAL_LEN 0,
      cs_hex_low = replicate CS_HEX_LOW_LEN 0, cs_hex_up = replicate CS_HEX_UP_LEN 0,
      cs_binary = replicate CS_BINARY_LEN 0, cs_all = replicate CS_ALL_LEN 0,
      cs_custom = replicate CUSTOM_CHARSET_COUNT (replicate CS_CUSTOM_MAX 0),
      cs_custom_len = replicate CUSTOM_CHARSET_COUNT 0,
      cs_custom_defined = replicate CUSTOM_CHARSET_COUNT False,
      word_count = 0, mask_keyspace = 0, total_keyspace = 0,
      word_offsets = [], word_lengths = [], file_size = 0\<rparr>"

definition init_charsets :: "pd_feed_global \<Rightarrow> pd_feed_global" where
  "init_charsets ctx =
     ctx\<lparr>cs_lower := CHARSET_LOWER, cs_upper := CHARSET_UPPER, cs_digit := CHARSET_DIGIT,
         cs_special := CHARSET_SPECIAL, cs_hex_low := CHARSET_HEX_LOW,
         cs_hex_up := CHARSET_HEX_UP, cs_binary := CHARSET_BINARY,
         cs_all := CHARSET_LOWER @ CHARSET_UPPER @ CHARSET_DIGIT @ CHARSET_SPECIAL,
         cs_custom_defined := replicate CUSTOM_CHARSET_COUNT False,
         cs_custom_len := replicate CUSTOM_CHARSET_COUNT 0\<rparr>"

text \<open>
  \<^verbatim>\<open>memcpy (cs_buf + cs_len, src, n)\<close> where \<^verbatim>\<open>cs_buf\<close> is
  \<^verbatim>\<open>ctx->cs_custom[cs_idx]\<close>: the buffer is written in place. The source is read
  as it stands before the copy; this is what \<^verbatim>\<open>memcpy\<close> does whenever the two
  regions are disjoint, which they are unless a slot that is being defined again
  refers to itself.
\<close>

definition cs_buf_copy :: "pd_feed_global \<Rightarrow> nat \<Rightarrow> u32 \<Rightarrow> u8 list \<Rightarrow> nat \<Rightarrow> pd_feed_global" where
  "cs_buf_copy ctx cs_idx cs_len src n =
     ctx\<lparr>cs_custom := (cs_custom ctx)[cs_idx :=
            take (unat cs_len) (cs_custom ctx ! cs_idx) @ take n src
            @ drop (unat cs_len + n) (cs_custom ctx ! cs_idx)]\<rparr>"

text \<open>\<^verbatim>\<open>cs_buf[cs_len++] = c\<close>, without the increment.\<close>

definition cs_buf_store :: "pd_feed_global \<Rightarrow> nat \<Rightarrow> u32 \<Rightarrow> u8 \<Rightarrow> pd_feed_global" where
  "cs_buf_store ctx cs_idx cs_len c =
     ctx\<lparr>cs_custom := (cs_custom ctx)[cs_idx := (cs_custom ctx ! cs_idx)[unat cs_len := c]]\<rparr>"

text \<open>
  One of the four steps of the case \<^verbatim>\<open>'a'\<close>: a built-in set is appended whole if it
  fits and skipped otherwise.
\<close>

definition append_if_fits ::
  "nat \<Rightarrow> u8 list \<Rightarrow> nat \<Rightarrow> pd_feed_global \<times> u32 \<Rightarrow> pd_feed_global \<times> u32" where
  "append_if_fits cs_idx src src_len st =
     (case st of (ctx, cs_len) \<Rightarrow>
        if unat (cs_len + of_nat src_len) \<le> CS_CUSTOM_MAX
        then (cs_buf_copy ctx cs_idx cs_len src src_len, cs_len + of_nat src_len)
        else (ctx, cs_len))"

text \<open>
  The cases of the \<^verbatim>\<open>switch\<close> that leave it with \<^verbatim>\<open>break\<close> (a source and its
  length) or with \<^verbatim>\<open>return -1\<close>; the cases \<^verbatim>\<open>'a'\<close> and \<^verbatim>\<open>'?'\<close>, which
  \<^verbatim>\<open>continue\<close>, are in the loop.
\<close>

definition custom_source :: "pd_feed_global \<Rightarrow> char \<Rightarrow> pd_error + (u8 list \<times> u32)" where
  "custom_source ctx spec =
     (if spec = CHR ''l'' then Inr (CHARSET_LOWER, of_nat CS_LOWER_LEN)
      else if spec = CHR ''u'' then Inr (CHARSET_UPPER, of_nat CS_UPPER_LEN)
      else if spec = CHR ''d'' then Inr (CHARSET_DIGIT, of_nat CS_DIGIT_LEN)
      else if spec = CHR ''s'' then Inr (CHARSET_SPECIAL, of_nat CS_SPECIAL_LEN)
      else if spec = CHR ''h'' then Inr (CHARSET_HEX_LOW, of_nat CS_HEX_LOW_LEN)
      else if spec = CHR ''H'' then Inr (CHARSET_HEX_UP, of_nat CS_HEX_UP_LEN)
      else if spec = CHR ''b'' then Inr (CHARSET_BINARY, of_nat CS_BINARY_LEN)
      else if spec \<in> set ''1234'' then
        (let ref_idx = of_char spec - of_char (CHR ''1'') in
         if \<not> cs_custom_defined ctx ! ref_idx
         then Inl (CustomCharsetReferencedBeforeDefinition spec)
         else Inr (cs_custom ctx ! ref_idx, cs_custom_len ctx ! ref_idx))
      else Inl (InvalidSpecifierInCustomCharset spec))"

text \<open>
  The body of the \<^verbatim>\<open>while\<close> loop of \<^verbatim>\<open>parse_custom_charset\<close>, but for the
  advance of \<^verbatim>\<open>i\<close>, which the loop function below makes: by two after a question
  mark, by one after any other character.
\<close>

definition parse_custom_charset_step ::
  "nat \<Rightarrow> string \<Rightarrow> pd_feed_global \<Rightarrow> nat \<Rightarrow> u32 \<Rightarrow> pd_error + (pd_feed_global \<times> u32)" where
  "parse_custom_charset_step cs_idx cs_def ctx i cs_len =
     (if cs_def ! i = CHR ''?'' then
        (if i + 1 \<ge> length cs_def then Inl CustomCharsetQuestionAtEnd
         else
           (let spec = cs_def ! (i + 1) in
            if spec = CHR ''a'' then
              Inr (append_if_fits cs_idx CHARSET_SPECIAL CS_SPECIAL_LEN
                    (append_if_fits cs_idx CHARSET_DIGIT CS_DIGIT_LEN
                      (append_if_fits cs_idx CHARSET_UPPER CS_UPPER_LEN
                        (append_if_fits cs_idx CHARSET_LOWER CS_LOWER_LEN (ctx, cs_len)))))
            else if spec = CHR ''?'' then
              (if unat cs_len < CS_CUSTOM_MAX
               then Inr (cs_buf_store ctx cs_idx cs_len (of_char (CHR ''?'')), cs_len + 1)
               else Inr (ctx, cs_len))
            else
              (case custom_source ctx spec of
                 Inl e \<Rightarrow> Inl e
               | Inr (src, src_len) \<Rightarrow>
                   (if src_len > 0 then
                      (let copy_len = (if unat (cs_len + src_len) \<le> CS_CUSTOM_MAX then src_len
                                       else of_nat CS_CUSTOM_MAX - cs_len)
                       in Inr (cs_buf_copy ctx cs_idx cs_len src (unat copy_len),
                               cs_len + copy_len))
                    else Inr (ctx, cs_len)))))
      else Inr (cs_buf_store ctx cs_idx cs_len (of_char (cs_def ! i)), cs_len + 1))"

function parse_custom_charset_loop ::
  "nat \<Rightarrow> string \<Rightarrow> pd_feed_global \<Rightarrow> nat \<Rightarrow> u32 \<Rightarrow> pd_error + (pd_feed_global \<times> u32)" where
  "parse_custom_charset_loop cs_idx cs_def ctx i cs_len =
     (if i < length cs_def \<and> unat cs_len < CS_CUSTOM_MAX then
        (case parse_custom_charset_step cs_idx cs_def ctx i cs_len of
           Inl e \<Rightarrow> Inl e
         | Inr st \<Rightarrow>
             parse_custom_charset_loop cs_idx cs_def (fst st)
               (if cs_def ! i = CHR ''?'' then i + 2 else i + 1) (snd st))
      else Inr (ctx, cs_len))"
  by pat_completeness auto
termination
  by (relation "measure (\<lambda>(cs_idx, cs_def, ctx, i, cs_len). length cs_def - i)") auto

definition parse_custom_charset ::
  "pd_feed_global \<Rightarrow> int \<Rightarrow> string \<Rightarrow> pd_error + pd_feed_global" where
  "parse_custom_charset ctx cs_idx cs_def =
     (if cs_idx < 0 \<or> cs_idx \<ge> int CUSTOM_CHARSET_COUNT
      then Inl (InvalidCustomCharsetIndex (cs_idx + 1))
      else
        (case parse_custom_charset_loop (nat cs_idx) cs_def ctx 0 0 of
           Inl e \<Rightarrow> Inl e
         | Inr (ctx', cs_len) \<Rightarrow>
             if cs_len = 0 then Inl (CustomCharsetEmpty (cs_idx + 1))
             else Inr (ctx'\<lparr>cs_custom_len := (cs_custom_len ctx')[nat cs_idx := cs_len],
                           cs_custom_defined := (cs_custom_defined ctx')[nat cs_idx := True]\<rparr>)))"

section \<open>Pattern compiler\<close>

text \<open>
  \<^verbatim>\<open>pos\<close> is \<^verbatim>\<open>&ctx->positions[ctx->num_positions]\<close>: a case of the switch
  updates fields of that entry and leaves the others as they are.
\<close>

definition set_position ::
  "pd_feed_global \<Rightarrow> (pattern_position \<Rightarrow> pattern_position) \<Rightarrow> pd_feed_global" where
  "set_position ctx f =
     ctx\<lparr>positions := (positions ctx)[unat (num_positions ctx) :=
            f (positions ctx ! unat (num_positions ctx))]\<rparr>"

definition charset_position ::
  "pattern_pos_type \<Rightarrow> u8 list \<Rightarrow> u32 \<Rightarrow> pattern_position \<Rightarrow> pattern_position" where
  "charset_position t cs n pos = pos\<lparr>pos_type := t, charset := Some cs, charset_len := n\<rparr>"

text \<open>A literal position points to its own \<^verbatim>\<open>literal_char\<close>, an array of one byte.\<close>

definition literal_position :: "u8 \<Rightarrow> pattern_position \<Rightarrow> pattern_position" where
  "literal_position c pos =
     pos\<lparr>pos_type := POS_LITERAL, literal_char := c, charset := Some [c], charset_len := 1\<rparr>"

definition word_slot :: "pattern_position \<Rightarrow> pattern_position" where
  "word_slot pos = pos\<lparr>pos_type := POS_WORD, charset := None, charset_len := 0\<rparr>"

text \<open>The \<^verbatim>\<open>switch (spec)\<close> of \<^verbatim>\<open>parse_pattern\<close>: the context and \<^verbatim>\<open>found_word\<close> after it.\<close>

definition compile_specifier ::
  "pd_feed_global \<Rightarrow> bool \<Rightarrow> char \<Rightarrow> pd_error + (pd_feed_global \<times> bool)" where
  "compile_specifier ctx found_word spec =
     (if spec = CHR ''l'' then
        Inr (set_position ctx (charset_position POS_LOWER (cs_lower ctx) (of_nat CS_LOWER_LEN)), found_word)
      else if spec = CHR ''u'' then
        Inr (set_position ctx (charset_position POS_UPPER (cs_upper ctx) (of_nat CS_UPPER_LEN)), found_word)
      else if spec = CHR ''d'' then
        Inr (set_position ctx (charset_position POS_DIGIT (cs_digit ctx) (of_nat CS_DIGIT_LEN)), found_word)
      else if spec = CHR ''s'' then
        Inr (set_position ctx (charset_position POS_SPECIAL (cs_special ctx) (of_nat CS_SPECIAL_LEN)), found_word)
      else if spec = CHR ''a'' then
        Inr (set_position ctx (charset_position POS_ALL (cs_all ctx) (of_nat CS_ALL_LEN)), found_word)
      else if spec = CHR ''h'' then
        Inr (set_position ctx (charset_position POS_HEX_LOW (cs_hex_low ctx) (of_nat CS_HEX_LOW_LEN)), found_word)
      else if spec = CHR ''H'' then
        Inr (set_position ctx (charset_position POS_HEX_UP (cs_hex_up ctx) (of_nat CS_HEX_UP_LEN)), found_word)
      else if spec = CHR ''b'' then
        Inr (set_position ctx (charset_position POS_BINARY (cs_binary ctx) (of_nat CS_BINARY_LEN)), found_word)
      else if spec = CHR ''1'' then
        (if \<not> cs_custom_defined ctx ! 0 then Inl (CustomCharsetNotDefined 1)
         else Inr (set_position ctx
                     (charset_position POS_CUSTOM_1 (cs_custom ctx ! 0) (cs_custom_len ctx ! 0)),
                   found_word))
      else if spec = CHR ''2'' then
        (if \<not> cs_custom_defined ctx ! 1 then Inl (CustomCharsetNotDefined 2)
         else Inr (set_position ctx
                     (charset_position POS_CUSTOM_2 (cs_custom ctx ! 1) (cs_custom_len ctx ! 1)),
                   found_word))
      else if spec = CHR ''3'' then
        (if \<not> cs_custom_defined ctx ! 2 then Inl (CustomCharsetNotDefined 3)
         else Inr (set_position ctx
                     (charset_position POS_CUSTOM_3 (cs_custom ctx ! 2) (cs_custom_len ctx ! 2)),
                   found_word))
      else if spec = CHR ''4'' then
        (if \<not> cs_custom_defined ctx ! 3 then Inl (CustomCharsetNotDefined 4)
         else Inr (set_position ctx
                     (charset_position POS_CUSTOM_4 (cs_custom ctx ! 3) (cs_custom_len ctx ! 3)),
                   found_word))
      else if spec = CHR ''W'' then
        (if found_word then Inl OnlyOneWordAllowed
         else Inr ((set_position ctx word_slot)\<lparr>word_position := num_positions ctx\<rparr>, True))
      else if spec = CHR ''?'' then
        Inr (set_position ctx (literal_position (of_char (CHR ''?''))), found_word)
      else Inl (InvalidPatternCharacter spec))"

text \<open>
  The body of the \<^verbatim>\<open>while\<close> loop of \<^verbatim>\<open>parse_pattern\<close>, but for the advance of
  \<^verbatim>\<open>i\<close>, which the loop function makes.
\<close>

definition parse_pattern_step ::
  "string \<Rightarrow> pd_feed_global \<Rightarrow> nat \<Rightarrow> bool \<Rightarrow> pd_error + (pd_feed_global \<times> bool)" where
  "parse_pattern_step pat ctx i found_word =
     (if unat (num_positions ctx) \<ge> PATTERN_MAX_POSITIONS then Inl PatternTooLong
      else if pat ! i = CHR ''?'' then
        (if i + 1 \<ge> length pat then Inl PatternQuestionAtEnd
         else
           (case compile_specifier ctx found_word (pat ! (i + 1)) of
              Inl e \<Rightarrow> Inl e
            | Inr (ctx', found_word') \<Rightarrow>
                Inr (ctx'\<lparr>num_positions := num_positions ctx' + 1\<rparr>, found_word')))
      else
        (let ctx' = set_position ctx (literal_position (of_char (pat ! i)))
         in Inr (ctx'\<lparr>num_positions := num_positions ctx' + 1\<rparr>, found_word)))"

function parse_pattern_loop ::
  "string \<Rightarrow> pd_feed_global \<Rightarrow> nat \<Rightarrow> bool \<Rightarrow> pd_error + (pd_feed_global \<times> bool)" where
  "parse_pattern_loop pat ctx i found_word =
     (if i < length pat then
        (case parse_pattern_step pat ctx i found_word of
           Inl e \<Rightarrow> Inl e
         | Inr st \<Rightarrow>
             parse_pattern_loop pat (fst st) (if pat ! i = CHR ''?'' then i + 2 else i + 1) (snd st))
      else Inr (ctx, found_word))"
  by pat_completeness auto
termination
  by (relation "measure (\<lambda>(pat, ctx, i, found_word). length pat - i)") auto

text \<open>The loop that counts the positions before and after the word position.\<close>

definition count_prefix_suffix :: "nat \<Rightarrow> pd_feed_global \<Rightarrow> pd_feed_global" where
  "count_prefix_suffix j ctx =
     (if j < unat (word_position ctx) then ctx\<lparr>prefix_len := prefix_len ctx + 1\<rparr>
      else if j > unat (word_position ctx) then ctx\<lparr>suffix_len := suffix_len ctx + 1\<rparr>
      else ctx)"

definition parse_pattern :: "pd_feed_global \<Rightarrow> string \<Rightarrow> pd_error + pd_feed_global" where
  "parse_pattern ctx pat =
     (case parse_pattern_loop pat
             (ctx\<lparr>num_positions := 0, word_position := - 1, prefix_len := 0, suffix_len := 0\<rparr>)
             0 False of
        Inl e \<Rightarrow> Inl e
      | Inr (ctx', found_word) \<Rightarrow>
          if \<not> found_word then Inl WordPlaceholderRequired
          else Inr (fold count_prefix_suffix [0..<unat (num_positions ctx')] ctx'))"

section \<open>Plugin interface\<close>

text \<open>
  The test of \<^verbatim>\<open>global_init\<close> for an option \<^verbatim>\<open>-1\<close> to \<^verbatim>\<open>-4\<close>, and the slot index
  \<^verbatim>\<open>workv[arg_idx][1] - '1'\<close>.
\<close>

definition cs_option_index :: "string \<Rightarrow> int option" where
  "cs_option_index arg =
     (case arg of
        [c0, c1] \<Rightarrow>
          if c0 = CHR ''-'' \<and> (of_char (CHR ''1'') :: nat) \<le> of_char c1
             \<and> (of_char c1 :: nat) \<le> of_char (CHR ''4'')
          then Some (int (of_char c1) - int (of_char (CHR ''1'')))
          else None
      | _ \<Rightarrow> None)"

function parse_options ::
  "string list \<Rightarrow> pd_feed_global \<Rightarrow> nat \<Rightarrow> pd_error + (pd_feed_global \<times> nat)" where
  "parse_options workv ctx arg_idx =
     (if arg_idx < length workv then
        (case cs_option_index (workv ! arg_idx) of
           None \<Rightarrow> Inr (ctx, arg_idx)
         | Some cs_idx \<Rightarrow>
             if arg_idx + 1 \<ge> length workv then Inl (MissingOptionValue (workv ! arg_idx))
             else
               (case parse_custom_charset ctx cs_idx (workv ! (arg_idx + 1)) of
                  Inl e \<Rightarrow> Inl e
                | Inr ctx' \<Rightarrow> parse_options workv ctx' (arg_idx + 2)))
      else Inr (ctx, arg_idx))"
  by pat_completeness auto
termination
  by (relation "measure (\<lambda>(workv, ctx, arg_idx). length workv - arg_idx)") auto

text \<open>\<^verbatim>\<open>global_init\<close>: \<open>workv\<close> is the argument vector, \<open>workv ! 0\<close> the plugin path.\<close>

definition global_init :: "string list \<Rightarrow> pd_error + pd_feed_global" where
  "global_init workv =
     (case parse_options workv (init_charsets zero_global) 1 of
        Inl e \<Rightarrow> Inl e
      | Inr (ctx, arg_idx) \<Rightarrow>
          if arg_idx + 2 > length workv then Inl Usage
          else parse_pattern (ctx\<lparr>pattern := workv ! arg_idx, wordlist := workv ! (arg_idx + 1)\<rparr>)
                 (workv ! arg_idx))"

text \<open>
  \<^verbatim>\<open>thread_init\<close>: \<open>file\<close> is the content of the word-list file, \<open>None\<close> when it
  cannot be opened, examined or mapped.
\<close>

definition thread_init :: "pd_feed_global \<Rightarrow> u8 list option \<Rightarrow> pd_error + pd_feed_thread" where
  "thread_init ctx file =
     (case file of
        None \<Rightarrow> Inl WordlistUnreadable
      | Some data \<Rightarrow>
          if length data = 0 then Inl WordlistEmptyFile
          else
            (case index_to_mask_indices ctx 0 (replicate PATTERN_MAX_POSITIONS 0) of
               Inl f \<Rightarrow> Inl (UndefinedBehaviour f)
             | Inr ind \<Rightarrow>
                 Inr \<lparr>fd_mem = data, current_word_idx = 0, current_mask_idx = 0,
                      current_offset = 0, mask_indices = ind\<rparr>))"

text \<open>
  \<^verbatim>\<open>global_keyspace\<close> returns the context after the call; the value returned by the C
  is its \<open>total_keyspace\<close>, and 0 where this is \<open>Inl\<close>.
\<close>

definition global_keyspace :: "pd_feed_global \<Rightarrow> u8 list option \<Rightarrow> pd_error + pd_feed_global" where
  "global_keyspace ctx file =
     (case thread_init ctx file of
        Inl e \<Rightarrow> Inl e
      | Inr tctx \<Rightarrow>
          (case build_word_index ctx (fd_mem tctx) of
             Inl e \<Rightarrow> Inl e
           | Inr ctx1 \<Rightarrow> Inr (set_keyspace (ctx1\<lparr>file_size := of_nat (length (fd_mem tctx))\<rparr>))))"

section \<open>Notions used to state the properties\<close>

text \<open>
  The product of the charset sizes of the non-word positions of the pattern, as a
  natural number (so without any overflow).
\<close>

definition mask_product :: "pd_feed_global \<Rightarrow> nat" where
  "mask_product ctx =
     prod_list (map (\<lambda>pos. unat (charset_len pos))
       (filter (\<lambda>pos. pos_type pos \<noteq> POS_WORD) (take (unat (num_positions ctx)) (positions ctx))))"

text \<open>
  The inverse of the odometer decomposition, which the round-trip property names:
  the digits are read from the first position to the last, each non-word position
  with its charset size as the radix, the word position skipped.
\<close>

definition digits_to_index :: "pd_feed_global \<Rightarrow> u32 list \<Rightarrow> nat" where
  "digits_to_index ctx digits =
     foldl (\<lambda>acc i. if pos_type (positions ctx ! i) = POS_WORD then acc
                     else acc * unat (charset_len (positions ctx ! i)) + unat (digits ! i))
       0 [0..<unat (num_positions ctx)]"

text \<open>
  The digit arrays of a pattern: 0 at the word position, less than the charset size at
  every other position of the pattern.
\<close>

definition valid_digits :: "pd_feed_global \<Rightarrow> u32 list \<Rightarrow> bool" where
  "valid_digits ctx digits =
     (length digits = PATTERN_MAX_POSITIONS \<and>
      (\<forall>i \<in> set [0..<unat (num_positions ctx)].
         if pos_type (positions ctx ! i) = POS_WORD then digits ! i = 0
         else digits ! i < charset_len (positions ctx ! i)))"

text \<open>
  The digit array of a cursor has the length of the C array, and its digits are in
  range where the generator indexes a charset.
\<close>

definition digits_in_range :: "pd_feed_global \<Rightarrow> pd_feed_thread \<Rightarrow> bool" where
  "digits_in_range ctx tctx =
     (length (mask_indices tctx) = PATTERN_MAX_POSITIONS \<and>
      (\<forall>i \<in> set [0..<unat (num_positions ctx)].
        pos_type (positions ctx ! i) \<noteq> POS_WORD \<longrightarrow>
          mask_indices tctx ! i < charset_len (positions ctx ! i)))"

text \<open>\<open>k\<close> calls of \<^verbatim>\<open>thread_next\<close> in a row: the values returned, in order.\<close>

fun next_times ::
  "nat \<Rightarrow> u32 \<Rightarrow> pd_feed_global \<Rightarrow> pd_feed_thread \<Rightarrow> u8 list \<Rightarrow>
   fault + (int list \<times> pd_feed_thread \<times> u8 list)" where
  "next_times 0 pw_max ctx tctx out_buf = Inr ([], tctx, out_buf)"
| "next_times (Suc k) pw_max ctx tctx out_buf =
     (case thread_next pw_max ctx tctx out_buf of
        Inl f \<Rightarrow> Inl f
      | Inr (n, tctx', out_buf') \<Rightarrow>
          (case next_times k pw_max ctx tctx' out_buf' of
             Inl f \<Rightarrow> Inl f
           | Inr (ns, tctx'', out_buf'') \<Rightarrow> Inr (n # ns, tctx'', out_buf'')))"

text \<open>
  The number of word placeholders of a pattern under the grammar of the pattern
  language: a question mark and the byte after it are one escape, any other byte is a
  literal, read from left to right.
\<close>

fun word_placeholders :: "string \<Rightarrow> nat" where
  "word_placeholders (c # d # cs) =
     (if c = CHR ''?'' then (if d = CHR ''W'' then 1 else 0) + word_placeholders cs
      else word_placeholders (d # cs))"
| "word_placeholders cs = 0"

text \<open>
  The lines of a buffer, each with its start offset and its trimmed length: a line
  ends at a newline or, the last one, at the end of a buffer that does not end in a
  newline; one trailing carriage return is not counted.
\<close>

definition trimmed_length :: "u8 list \<Rightarrow> nat" where
  "trimmed_length line = (if line \<noteq> [] \<and> last line = 13 then length line - 1 else length line)"

function line_table :: "nat \<Rightarrow> u8 list \<Rightarrow> (nat \<times> nat) list" where
  "line_table start [] = []"
| "line_table start (b # bs) =
     (let line = takeWhile (\<lambda>x. x \<noteq> 10) (b # bs)
      in (start, trimmed_length line)
         # line_table (start + length line + 1) (drop (length line + 1) (b # bs)))"
  by pat_completeness auto
termination
  by (relation "measure (\<lambda>(start, data). length data)") auto

text \<open>The invariants of a context: the registry, and the compiled pattern.\<close>

definition wf_registry :: "pd_feed_global \<Rightarrow> bool" where
  "wf_registry ctx =
     (length (positions ctx) = PATTERN_MAX_POSITIONS \<and>
      length (cs_lower ctx) = CS_LOWER_LEN \<and> length (cs_upper ctx) = CS_UPPER_LEN \<and>
      length (cs_digit ctx) = CS_DIGIT_LEN \<and> length (cs_special ctx) = CS_SPECIAL_LEN \<and>
      length (cs_hex_low ctx) = CS_HEX_LOW_LEN \<and> length (cs_hex_up ctx) = CS_HEX_UP_LEN \<and>
      length (cs_binary ctx) = CS_BINARY_LEN \<and> length (cs_all ctx) = CS_ALL_LEN \<and>
      length (cs_custom ctx) = CUSTOM_CHARSET_COUNT \<and>
      length (cs_custom_len ctx) = CUSTOM_CHARSET_COUNT \<and>
      length (cs_custom_defined ctx) = CUSTOM_CHARSET_COUNT \<and>
      (\<forall>k \<in> set [0..<CUSTOM_CHARSET_COUNT].
         length (cs_custom ctx ! k) = CS_CUSTOM_MAX \<and>
         (cs_custom_defined ctx ! k \<longrightarrow>
            cs_custom_len ctx ! k \<noteq> 0 \<and> unat (cs_custom_len ctx ! k) \<le> CS_CUSTOM_MAX)))"

definition position_ok :: "pattern_position \<Rightarrow> bool" where
  "position_ok pos =
     (pos_type pos \<noteq> POS_WORD \<and> charset_len pos \<noteq> 0 \<and>
      (case charset pos of None \<Rightarrow> False | Some cs \<Rightarrow> unat (charset_len pos) \<le> length cs))"

definition compiled :: "pd_feed_global \<Rightarrow> bool" where
  "compiled ctx =
     (length (positions ctx) = PATTERN_MAX_POSITIONS \<and>
      unat (num_positions ctx) \<le> PATTERN_MAX_POSITIONS \<and>
      word_position ctx < num_positions ctx \<and>
      pos_type (positions ctx ! unat (word_position ctx)) = POS_WORD \<and>
      (\<forall>i \<in> set [0..<unat (num_positions ctx)].
         i \<noteq> unat (word_position ctx) \<longrightarrow> position_ok (positions ctx ! i)))"

section \<open>Notions used in the proofs\<close>

text \<open>The radix of a position in the odometer: 1 for the word position.\<close>

definition radix :: "pattern_position \<Rightarrow> nat" where
  "radix pos = (if pos_type pos = POS_WORD then 1 else unat (charset_len pos))"

text \<open>Facts about the registry that the custom-charset parser does not touch.\<close>

definition same_but_custom :: "pd_feed_global \<Rightarrow> pd_feed_global \<Rightarrow> bool" where
  "same_but_custom ctx ctx' = (\<exists>bufs. ctx' = ctx\<lparr>cs_custom := bufs\<rparr>)"

text \<open>The invariant of the scan of \<^verbatim>\<open>parse_pattern\<close>.\<close>

definition scanning :: "pd_feed_global \<Rightarrow> bool \<Rightarrow> bool" where
  "scanning ctx found_word =
     (wf_registry ctx \<and> unat (num_positions ctx) \<le> PATTERN_MAX_POSITIONS \<and>
      (found_word \<longrightarrow> word_position ctx < num_positions ctx) \<and>
      (\<forall>j < unat (num_positions ctx).
         if found_word \<and> j = unat (word_position ctx)
         then pos_type (positions ctx ! j) = POS_WORD
         else position_ok (positions ctx ! j)))"

definition found_count :: "bool \<Rightarrow> nat" where
  "found_count found_word = (if found_word then 1 else 0)"

text \<open>What \<^verbatim>\<open>global_keyspace\<close> leaves of the context it is given, and what it adds.\<close>

definition indexed :: "pd_feed_global \<Rightarrow> pd_feed_global \<Rightarrow> bool" where
  "indexed ctx0 ctx =
     (positions ctx = positions ctx0 \<and> num_positions ctx = num_positions ctx0 \<and>
      word_position ctx = word_position ctx0 \<and>
      length (word_offsets ctx) = unat (word_count ctx) \<and>
      length (word_lengths ctx) = unat (word_count ctx) \<and> word_count ctx \<noteq> 0 \<and>
      mask_keyspace ctx = calculate_mask_keyspace ctx \<and>
      total_keyspace ctx =
        (if mask_keyspace ctx > 0 \<and> word_count ctx > UINT64_MAX div mask_keyspace ctx
         then UINT64_MAX else word_count ctx * mask_keyspace ctx))"

text \<open>The value of the first \<open>k\<close> digits, the first one most significant.\<close>

primrec horner :: "pattern_position list \<Rightarrow> u32 list \<Rightarrow> nat \<Rightarrow> nat" where
  "horner ps d 0 = 0"
| "horner ps d (Suc k) = horner ps d k * radix (ps ! k) + unat (d ! k)"

text \<open>Writing a run of entries into the two tables from index \<open>w\<close> on.\<close>

definition put_entries ::
  "nat \<Rightarrow> (nat \<times> nat) list \<Rightarrow> u64 list \<times> u32 list \<Rightarrow> u64 list \<times> u32 list" where
  "put_entries w es tabs =
     (take w (fst tabs) @ map (\<lambda>e. of_nat (fst e)) es @ drop (w + length es) (fst tabs),
      take w (snd tabs) @ map (\<lambda>e. of_nat (snd e)) es @ drop (w + length es) (snd tabs))"

text \<open>The second pass followed by the handling of a last line without a newline.\<close>

definition record_all ::
  "u8 list \<Rightarrow> nat \<Rightarrow> nat \<Rightarrow> nat \<Rightarrow> u64 list \<times> u32 list \<Rightarrow> fault + (u64 list \<times> u32 list)" where
  "record_all data i w ls tabs =
     (case record_lines data i w ls tabs of
        Inl f \<Rightarrow> Inl f
      | Inr (w', ls', tabs') \<Rightarrow>
          if ls' < length data
          then record_word w' ls' (strip_cr data ls' (length data - ls')) tabs'
          else Inr tabs')"

text \<open>A compiled pattern to try the theorems on: a digit, the word, an exclamation mark.\<close>

definition example_compiled :: pd_feed_global where
  "example_compiled =
     (init_charsets zero_global)
       \<lparr>pattern := ''?d?W!'', wordlist := ''words'',
        positions :=
          [\<lparr>pos_type = POS_DIGIT, literal_char = 0, charset_len = 10,
            charset = Some CHARSET_DIGIT\<rparr>,
           \<lparr>pos_type = POS_WORD, literal_char = 0, charset_len = 0, charset = None\<rparr>,
           \<lparr>pos_type = POS_LITERAL, literal_char = 33, charset_len = 1, charset = Some [33]\<rparr>]
          @ replicate 29 zero_position,
        num_positions := 3, word_position := 1, prefix_len := 1, suffix_len := 1\<rparr>"

text \<open>A word list of two lines, \<^verbatim>\<open>ab\<close> and \<^verbatim>\<open>c\<close>, the second one ending in CR LF.\<close>

definition example_file :: "u8 list" where
  "example_file = [97, 98, 10, 99, 13, 10]"

definition example_indexed :: pd_feed_global where
  "example_indexed =
     example_compiled\<lparr>word_count := 2, mask_keyspace := 10, total_keyspace := 20,
                      word_offsets := [0, 3], word_lengths := [2, 1], file_size := 6\<rparr>"

definition example_cursor :: pd_feed_thread where
  "example_cursor =
     \<lparr>fd_mem = example_file, current_word_idx = 0, current_mask_idx = 0, current_offset = 0,
      mask_indices = replicate 32 0\<rparr>"

definition no_error :: generic_global_ctx where
  "no_error = \<lparr>error = False, error_msg = None\<rparr>"

declare calculate_mask_keyspace_loop.simps [simp del]
declare generate_prefix.simps [simp del]
declare generate_suffix.simps [simp del]
declare record_lines.simps [simp del]
declare parse_custom_charset_loop.simps [simp del]
declare parse_pattern_loop.simps [simp del]
declare parse_options.simps [simp del]
declare line_table.simps [simp del]

section \<open>Proofs\<close>

lemmas consts_defs = PATTERN_MAX_POSITIONS_def CS_LOWER_LEN_def CS_UPPER_LEN_def CS_DIGIT_LEN_def
  CS_SPECIAL_LEN_def CS_HEX_LOW_LEN_def CS_HEX_UP_LEN_def CS_BINARY_LEN_def CS_ALL_LEN_def
  CS_CUSTOM_MAX_def CUSTOM_CHARSET_COUNT_def

lemma unat_u64_bound: "unat (x :: u64) \<le> 18446744073709551615"
  using unsigned_less [of x, where 'a = nat] by simp

lemma unat_u32_bound: "unat (x :: u32) < 4294967296"
  using unsigned_less [of x, where 'a = nat] by simp

lemma unat_ucast_u32_u64: "unat (ucast (x :: u32) :: u64) = unat x"
  using unat_u32_bound [of x]
  by (simp add: unsigned_ucast_eq take_bit_eq_mod unsigned_take_bit_eq)

lemma unat_ucast_u64_u32: "unat (ucast (x :: u64) :: u32) = unat x mod 4294967296"
  by (simp add: unsigned_ucast_eq take_bit_eq_mod unsigned_take_bit_eq)

lemma mult_keeps_big:
  fixes M a r :: nat
  assumes "M < a" "0 < r"
  shows "M < a * r"
proof -
  have "a \<le> a * r" using assms(2) by simp
  with assms(1) show ?thesis by linarith
qed

lemma prod_list_pos: "(\<forall>x \<in> set xs. 0 < (f x :: nat)) \<Longrightarrow> 0 < prod_list (map f xs)"
  by (induction xs) auto

lemma u64_div_max: "k \<noteq> 0 \<Longrightarrow> unat (UINT64_MAX div (k::u64)) = 18446744073709551615 div unat k"
  by (simp add: UINT64_MAX_def unat_div)

lemma overflow_test:
  fixes k c :: u64
  assumes "k \<noteq> 0"
  shows "(c > UINT64_MAX div k) = (unat k * unat c > 18446744073709551615)"
proof -
  have k: "0 < unat k" using assms by (simp add: unat_gt_0)
  have "(c > UINT64_MAX div k) = (18446744073709551615 div unat k < unat c)"
    by (simp add: word_less_nat_alt u64_div_max assms)
  also have "\<dots> = (unat k * unat c > 18446744073709551615)"
    using k by (metis div_less_iff_less_mult mult.commute)
  finally show ?thesis .
qed

lemma unat_mult_exact:
  fixes k c :: u64
  assumes "unat k * unat c \<le> 18446744073709551615"
  shows "unat (k * c) = unat k * unat c"
  using assms by (simp add: unat_word_ariths)

lemma mask_product_radix:
  "mask_product ctx = prod_list (map radix (take (unat (num_positions ctx)) (positions ctx)))"
proof -
  have "prod_list (map (\<lambda>pos. unat (charset_len pos)) (filter (\<lambda>pos. pos_type pos \<noteq> POS_WORD) xs))
        = prod_list (map radix xs)" for xs
    by (induction xs) (auto simp: radix_def)
  then show ?thesis by (simp add: mask_product_def)
qed

lemma calculate_mask_keyspace_loop_value:
  assumes "unat (num_positions ctx) \<le> length (positions ctx)"
    and "\<forall>j. i \<le> j \<and> j < unat (num_positions ctx) \<longrightarrow> 0 < radix (positions ctx ! j)"
    and "k \<noteq> 0"
  shows "unat (calculate_mask_keyspace_loop ctx i k) =
         min (unat k * prod_list (map radix (drop i (take (unat (num_positions ctx)) (positions ctx)))))
             18446744073709551615"
  using assms
proof (induction ctx i k rule: calculate_mask_keyspace_loop.induct)
  case (1 ctx i keyspace)
  let ?n = "unat (num_positions ctx)"
  let ?ps = "take ?n (positions ctx)"
  show ?case
  proof (cases "i < ?n")
    case False
    then have "drop i ?ps = []" by simp
    with False show ?thesis
      using unat_u64_bound [of keyspace]
      by (subst calculate_mask_keyspace_loop.simps) simp
  next
    case True
    then have len: "i < length ?ps" using "1.prems"(1) by simp
    have dr: "drop i ?ps = positions ctx ! i # drop (i + 1) ?ps"
      using len True by (metis Cons_nth_drop_Suc Suc_eq_plus1 nth_take)
    let ?rest = "prod_list (map radix (drop (i + 1) ?ps))"
    have rest_pos: "0 < ?rest"
    proof -
      have "\<forall>x \<in> set (drop (i + 1) ?ps). 0 < radix x"
      proof
        fix x assume "x \<in> set (drop (i + 1) ?ps)"
        then obtain j where j: "j < length (drop (i + 1) ?ps)" "x = drop (i + 1) ?ps ! j"
          by (metis in_set_conv_nth)
        then have "x = positions ctx ! (i + 1 + j)" "i + 1 + j < ?n"
          using "1.prems"(1) by auto
        then show "0 < radix x" using "1.prems"(2) by simp
      qed
      then show ?thesis by (rule prod_list_pos)
    qed
    have k0: "0 < unat keyspace" using "1.prems"(3) by (simp add: unat_gt_0)
    have kw: "0 < keyspace" using "1.prems"(3) by (simp add: word_greater_zero_iff)
    show ?thesis
    proof (cases "pos_type (positions ctx ! i) = POS_WORD")
      case w: True
      have "\<forall>j. i + 1 \<le> j \<and> j < ?n \<longrightarrow> 0 < radix (positions ctx ! j)"
        using "1.prems"(2) by auto
      moreover have r1: "radix (positions ctx ! i) = 1" using w by (simp add: radix_def)
      ultimately show ?thesis
        using "1.IH"(2) [OF True _ "1.prems"(1) _ "1.prems"(3)] w True
        by (subst calculate_mask_keyspace_loop.simps) (simp add: dr)
    next
      case nw: False
      let ?c = "ucast (charset_len (positions ctx ! i)) :: u64"
      have c: "unat ?c = radix (positions ctx ! i)"
        using nw by (simp add: radix_def unat_ucast_u32_u64)
      have cpos: "0 < unat ?c" using "1.prems"(2) True c by simp
      show ?thesis
      proof (cases "?c > UINT64_MAX div keyspace")
        case ov: True
        then have big: "unat keyspace * unat ?c > 18446744073709551615"
          using overflow_test [OF "1.prems"(3)] by simp
        have "18446744073709551615 < unat keyspace * unat ?c * ?rest"
          by (rule mult_keeps_big [OF big rest_pos])
        then have "unat keyspace * (radix (positions ctx ! i) * ?rest) > 18446744073709551615"
          unfolding c by (simp only: mult.assoc)
        with ov kw nw True show ?thesis
          by (subst calculate_mask_keyspace_loop.simps) (simp add: dr UINT64_MAX_def Let_def)
      next
        case nov: False
        then have small: "unat keyspace * unat ?c \<le> 18446744073709551615"
          using overflow_test [OF "1.prems"(3)] by simp
        have un: "unat (keyspace * ?c) = unat keyspace * unat ?c"
          by (rule unat_mult_exact [OF small])
        have ne: "keyspace * ?c \<noteq> 0"
          using un k0 cpos by (metis mult_is_0 neq0_conv unat_eq_0)
        have "\<forall>j. i + 1 \<le> j \<and> j < ?n \<longrightarrow> 0 < radix (positions ctx ! j)"
          using "1.prems"(2) by auto
        from "1.IH"(1) [OF True nw refl _ "1.prems"(1) this ne] nov
        have "unat (calculate_mask_keyspace_loop ctx (i + 1) (keyspace * ?c)) =
              min (unat (keyspace * ?c) * ?rest) 18446744073709551615"
          by simp
        with nov nw True show ?thesis
          by (subst calculate_mask_keyspace_loop.simps) (simp add: dr un c Let_def mult.assoc)
      qed
    qed
  qed
qed

lemma wf_registry_init: "wf_registry (init_charsets zero_global)"
  by (simp add: wf_registry_def init_charsets_def zero_global_def consts_defs
      CHARSET_LOWER_def CHARSET_UPPER_def CHARSET_DIGIT_def CHARSET_SPECIAL_def
      CHARSET_HEX_LOW_def CHARSET_HEX_UP_def CHARSET_BINARY_def)

lemma same_but_custom_refl: "same_but_custom ctx ctx"
  by (auto simp: same_but_custom_def intro: exI [of _ "cs_custom ctx"])

lemma same_but_custom_trans:
  "same_but_custom a b \<Longrightarrow> same_but_custom b c \<Longrightarrow> same_but_custom a c"
  by (auto simp: same_but_custom_def)

lemma wf_registry_custom_update:
  assumes "wf_registry ctx" "k < CUSTOM_CHARSET_COUNT" "length buf = CS_CUSTOM_MAX"
  shows "wf_registry (ctx\<lparr>cs_custom := (cs_custom ctx)[k := buf]\<rparr>)"
  using assms by (auto simp: wf_registry_def nth_list_update)

lemma cs_buf_store_ok:
  assumes "wf_registry ctx" "k < CUSTOM_CHARSET_COUNT"
  shows "wf_registry (cs_buf_store ctx k cs_len c)" "same_but_custom ctx (cs_buf_store ctx k cs_len c)"
proof -
  have "length (cs_custom ctx ! k) = CS_CUSTOM_MAX"
    using assms by (simp add: wf_registry_def)
  then show "wf_registry (cs_buf_store ctx k cs_len c)"
    unfolding cs_buf_store_def using assms by (intro wf_registry_custom_update) simp_all
  show "same_but_custom ctx (cs_buf_store ctx k cs_len c)"
    by (auto simp: cs_buf_store_def same_but_custom_def)
qed

lemma cs_buf_copy_ok:
  assumes "wf_registry ctx" "k < CUSTOM_CHARSET_COUNT" "n \<le> length src"
    "unat cs_len + n \<le> CS_CUSTOM_MAX"
  shows "wf_registry (cs_buf_copy ctx k cs_len src n)" "same_but_custom ctx (cs_buf_copy ctx k cs_len src n)"
proof -
  have "length (cs_custom ctx ! k) = CS_CUSTOM_MAX"
    using assms by (simp add: wf_registry_def)
  then show "wf_registry (cs_buf_copy ctx k cs_len src n)"
    unfolding cs_buf_copy_def using assms by (intro wf_registry_custom_update) auto
  show "same_but_custom ctx (cs_buf_copy ctx k cs_len src n)"
    by (auto simp: cs_buf_copy_def same_but_custom_def)
qed

lemma unat_add_small:
  fixes a b :: u32
  assumes "unat a \<le> 256" "unat b \<le> 256"
  shows "unat (a + b) = unat a + unat b"
  using assms by (simp add: unat_word_ariths)

lemma unat_of_nat_small: "n \<le> 256 \<Longrightarrow> unat (of_nat n :: u32) = n"
  by (simp add: unat_of_nat)

lemma append_if_fits_ok:
  assumes "wf_registry ctx" "k < CUSTOM_CHARSET_COUNT" "length src = src_len" "src_len \<le> 256"
    "unat cs_len \<le> CS_CUSTOM_MAX" "append_if_fits k src src_len (ctx, cs_len) = (ctx', cs_len')"
  shows "wf_registry ctx' \<and> same_but_custom ctx ctx' \<and> unat cs_len' \<le> CS_CUSTOM_MAX"
proof (cases "unat (cs_len + of_nat src_len) \<le> CS_CUSTOM_MAX")
  case False
  with assms show ?thesis by (simp add: append_if_fits_def same_but_custom_refl)
next
  case True
  have sum: "unat (cs_len + of_nat src_len) = unat cs_len + src_len"
    using assms(4,5) unat_add_small [of cs_len "of_nat src_len"]
    by (simp add: unat_of_nat_small CS_CUSTOM_MAX_def)
  have eq: "ctx' = cs_buf_copy ctx k cs_len src src_len" "cs_len' = cs_len + of_nat src_len"
    using assms(6) True by (simp_all add: append_if_fits_def)
  have "unat cs_len + src_len \<le> CS_CUSTOM_MAX" using True sum by simp
  with cs_buf_copy_ok [OF assms(1,2), of src_len src cs_len] assms(3) eq sum True
  show ?thesis by simp
qed

lemma custom_source_ok:
  assumes "wf_registry ctx" "custom_source ctx spec = Inr (src, src_len)"
  shows "unat src_len \<le> length src \<and> unat src_len \<le> CS_CUSTOM_MAX"
proof -
  have builtin: "unat (of_nat CS_LOWER_LEN :: u32) = 26" "unat (of_nat CS_UPPER_LEN :: u32) = 26"
    "unat (of_nat CS_DIGIT_LEN :: u32) = 10" "unat (of_nat CS_SPECIAL_LEN :: u32) = 33"
    "unat (of_nat CS_HEX_LOW_LEN :: u32) = 16" "unat (of_nat CS_HEX_UP_LEN :: u32) = 16"
    "unat (of_nat CS_BINARY_LEN :: u32) = 256"
    by (simp_all add: consts_defs)
  have lens: "length CHARSET_LOWER = 26" "length CHARSET_UPPER = 26" "length CHARSET_DIGIT = 10"
    "length CHARSET_SPECIAL = 33" "length CHARSET_HEX_LOW = 16" "length CHARSET_HEX_UP = 16"
    "length CHARSET_BINARY = 256"
    by (simp_all add: CHARSET_LOWER_def CHARSET_UPPER_def CHARSET_DIGIT_def CHARSET_SPECIAL_def
        CHARSET_HEX_LOW_def CHARSET_HEX_UP_def CHARSET_BINARY_def CS_BINARY_LEN_def)
  have ref: "(of_char c :: nat) - of_char (CHR ''1'') < 4" if "c \<in> set ''1234''" for c
    using that by auto
  show ?thesis
  proof (cases "spec \<in> set ''1234''")
    case True
    let ?r = "(of_char spec :: nat) - of_char (CHR ''1'')"
    have r: "?r < CUSTOM_CHARSET_COUNT" using ref [OF True] by (simp add: CUSTOM_CHARSET_COUNT_def)
    have not_builtin: "spec \<noteq> CHR ''l''" "spec \<noteq> CHR ''u''" "spec \<noteq> CHR ''d''" "spec \<noteq> CHR ''s''"
      "spec \<noteq> CHR ''h''" "spec \<noteq> CHR ''H''" "spec \<noteq> CHR ''b''"
      using True by auto
    from assms(2) True not_builtin
    have d: "cs_custom_defined ctx ! ?r" "src = cs_custom ctx ! ?r" "src_len = cs_custom_len ctx ! ?r"
      by (auto simp: custom_source_def Let_def split: if_splits)
    from assms(1) r d show ?thesis
      by (simp add: wf_registry_def)
  next
    case False
    with assms(2) show ?thesis
      by (auto simp: custom_source_def builtin lens CS_CUSTOM_MAX_def split: if_splits)
  qed
qed


lemma parse_custom_charset_step_ok:
  assumes wf: "wf_registry ctx" and k: "k < CUSTOM_CHARSET_COUNT"
    and lt: "unat cs_len < CS_CUSTOM_MAX"
    and step: "parse_custom_charset_step k cs_def ctx i cs_len = Inr (ctx', cs_len')"
  shows "wf_registry ctx' \<and> same_but_custom ctx ctx' \<and> unat cs_len' \<le> CS_CUSTOM_MAX"
proof -
  have le: "unat cs_len \<le> CS_CUSTOM_MAX" using lt by simp
  have inc: "unat (cs_len + 1) \<le> CS_CUSTOM_MAX"
    using lt unat_add_small [of cs_len 1] by (simp add: CS_CUSTOM_MAX_def)
  show ?thesis
  proof (cases "cs_def ! i = CHR ''?''")
    case False
    with step have "ctx' = cs_buf_store ctx k cs_len (of_char (cs_def ! i))" "cs_len' = cs_len + 1"
      by (simp_all add: parse_custom_charset_step_def)
    with cs_buf_store_ok [OF wf k] inc show ?thesis by simp
  next
    case q: True
    with step have nd: "\<not> i + 1 \<ge> length cs_def"
      by (auto simp: parse_custom_charset_step_def split: if_splits)
    let ?spec = "cs_def ! (i + 1)"
    show ?thesis
    proof (cases "?spec = CHR ''a''")
      case True
      obtain c1 n1 where s1: "append_if_fits k CHARSET_LOWER CS_LOWER_LEN (ctx, cs_len) = (c1, n1)"
        by (cases "append_if_fits k CHARSET_LOWER CS_LOWER_LEN (ctx, cs_len)")
      obtain c2 n2 where s2: "append_if_fits k CHARSET_UPPER CS_UPPER_LEN (c1, n1) = (c2, n2)"
        by (cases "append_if_fits k CHARSET_UPPER CS_UPPER_LEN (c1, n1)")
      obtain c3 n3 where s3: "append_if_fits k CHARSET_DIGIT CS_DIGIT_LEN (c2, n2) = (c3, n3)"
        by (cases "append_if_fits k CHARSET_DIGIT CS_DIGIT_LEN (c2, n2)")
      obtain c4 n4 where s4: "append_if_fits k CHARSET_SPECIAL CS_SPECIAL_LEN (c3, n3) = (c4, n4)"
        by (cases "append_if_fits k CHARSET_SPECIAL CS_SPECIAL_LEN (c3, n3)")
      have r1: "wf_registry c1 \<and> same_but_custom ctx c1 \<and> unat n1 \<le> CS_CUSTOM_MAX"
        by (rule append_if_fits_ok [OF wf k _ _ le s1])
           (simp_all add: CHARSET_LOWER_def CS_LOWER_LEN_def)
      have r2: "wf_registry c2 \<and> same_but_custom c1 c2 \<and> unat n2 \<le> CS_CUSTOM_MAX"
        using r1 by (intro append_if_fits_ok [OF _ k _ _ _ s2])
           (simp_all add: CHARSET_UPPER_def CS_UPPER_LEN_def)
      have r3: "wf_registry c3 \<and> same_but_custom c2 c3 \<and> unat n3 \<le> CS_CUSTOM_MAX"
        using r2 by (intro append_if_fits_ok [OF _ k _ _ _ s3])
           (simp_all add: CHARSET_DIGIT_def CS_DIGIT_LEN_def)
      have r4: "wf_registry c4 \<and> same_but_custom c3 c4 \<and> unat n4 \<le> CS_CUSTOM_MAX"
        using r3 by (intro append_if_fits_ok [OF _ k _ _ _ s4])
           (simp_all add: CHARSET_SPECIAL_def CS_SPECIAL_LEN_def)
      from step q nd True s1 s2 s3 s4 have "ctx' = c4" "cs_len' = n4"
        by (simp_all add: parse_custom_charset_step_def)
      with r1 r2 r3 r4 show ?thesis
        by (blast intro: same_but_custom_trans)
    next
      case na: False
      show ?thesis
      proof (cases "?spec = CHR ''?''")
        case True
        with step q nd na lt
        have "ctx' = cs_buf_store ctx k cs_len (of_char (CHR ''?''))" "cs_len' = cs_len + 1"
          by (simp_all add: parse_custom_charset_step_def)
        with cs_buf_store_ok [OF wf k] inc show ?thesis by simp
      next
        case nq: False
        from step q nd na nq obtain src src_len where
          src: "custom_source ctx ?spec = Inr (src, src_len)"
          by (auto simp: parse_custom_charset_step_def Let_def split: sum.splits)
        from custom_source_ok [OF wf src]
        have sl: "unat src_len \<le> length src" "unat src_len \<le> CS_CUSTOM_MAX" by simp_all
        show ?thesis
        proof (cases "src_len > 0")
          case False
          with step q nd na nq src have "ctx' = ctx" "cs_len' = cs_len"
            by (simp_all add: parse_custom_charset_step_def)
          with wf le show ?thesis by (simp add: same_but_custom_refl)
        next
          case pos: True
          let ?copy = "if unat (cs_len + src_len) \<le> CS_CUSTOM_MAX then src_len
                       else of_nat CS_CUSTOM_MAX - cs_len"
          have sum: "unat (cs_len + src_len) = unat cs_len + unat src_len"
            using le sl(2) unat_add_small [of cs_len src_len] by (simp add: CS_CUSTOM_MAX_def)
          have diff: "unat (of_nat CS_CUSTOM_MAX - cs_len :: u32) = CS_CUSTOM_MAX - unat cs_len"
            using le by (simp add: CS_CUSTOM_MAX_def unat_sub word_le_nat_alt)
          have cp: "unat cs_len + unat ?copy \<le> CS_CUSTOM_MAX" "unat ?copy \<le> unat src_len"
            using sum diff le by (auto split: if_splits)
          have tot: "unat (cs_len + ?copy) = unat cs_len + unat ?copy"
            using le cp unat_add_small [of cs_len ?copy] by (simp add: CS_CUSTOM_MAX_def)
          from step q nd na nq src pos
          have eq: "ctx' = cs_buf_copy ctx k cs_len src (unat ?copy)" "cs_len' = cs_len + ?copy"
            by (simp_all add: parse_custom_charset_step_def Let_def)
          have "unat ?copy \<le> length src" using cp(2) sl(1) by linarith
          from cs_buf_copy_ok [OF wf k this cp(1)] eq tot cp(1) show ?thesis by simp
        qed
      qed
    qed
  qed
qed

lemma parse_custom_charset_loop_ok:
  assumes "wf_registry ctx" "k < CUSTOM_CHARSET_COUNT" "unat cs_len \<le> CS_CUSTOM_MAX"
    "parse_custom_charset_loop k cs_def ctx i cs_len = Inr (ctx', cs_len')"
  shows "wf_registry ctx' \<and> same_but_custom ctx ctx' \<and> unat cs_len' \<le> CS_CUSTOM_MAX"
  using assms
proof (induction k cs_def ctx i cs_len rule: parse_custom_charset_loop.induct)
  case (1 k cs_def ctx i cs_len)
  show ?case
  proof (cases "i < length cs_def \<and> unat cs_len < CS_CUSTOM_MAX")
    case False
    with "1.prems" show ?thesis
      by (simp add: parse_custom_charset_loop.simps [of k cs_def ctx i cs_len] same_but_custom_refl)
  next
    case True
    with "1.prems"(4) obtain c1 n1 where
      st: "parse_custom_charset_step k cs_def ctx i cs_len = Inr (c1, n1)" and
      rest: "parse_custom_charset_loop k cs_def c1 (if cs_def ! i = CHR ''?'' then i + 2 else i + 1) n1
             = Inr (ctx', cs_len')"
      by (auto simp: parse_custom_charset_loop.simps [of k cs_def ctx i cs_len] split: sum.splits)
    from True have lt: "unat cs_len < CS_CUSTOM_MAX" by simp
    from parse_custom_charset_step_ok [OF "1.prems"(1,2) lt st]
    have s: "wf_registry c1" "same_but_custom ctx c1" "unat n1 \<le> CS_CUSTOM_MAX" by simp_all
    from "1.IH" [OF True st] s "1.prems"(2) rest
    have "wf_registry ctx' \<and> same_but_custom c1 ctx' \<and> unat cs_len' \<le> CS_CUSTOM_MAX"
      by simp
    with s show ?thesis by (blast intro: same_but_custom_trans)
  qed
qed

lemma parse_custom_charset_ok:
  assumes "wf_registry ctx" "parse_custom_charset ctx cs_idx cs_def = Inr ctx'"
  shows "wf_registry ctx'"
proof -
  from assms(2) have rng: "0 \<le> cs_idx" "cs_idx < int CUSTOM_CHARSET_COUNT"
    by (auto simp: parse_custom_charset_def split: if_splits)
  then have k: "nat cs_idx < CUSTOM_CHARSET_COUNT" by simp
  from assms(2) rng obtain c1 n1 where
    lp: "parse_custom_charset_loop (nat cs_idx) cs_def ctx 0 0 = Inr (c1, n1)" and n1: "n1 \<noteq> 0"
    and eq: "ctx' = c1\<lparr>cs_custom_len := (cs_custom_len c1)[nat cs_idx := n1],
                       cs_custom_defined := (cs_custom_defined c1)[nat cs_idx := True]\<rparr>"
    by (auto simp: parse_custom_charset_def split: sum.splits if_splits)
  from parse_custom_charset_loop_ok [OF assms(1) k _ lp]
  have "wf_registry c1" "unat n1 \<le> CS_CUSTOM_MAX" by simp_all
  with n1 k show ?thesis unfolding eq
    by (auto simp: wf_registry_def nth_list_update)
qed

lemma parse_options_ok:
  assumes "wf_registry ctx" "parse_options workv ctx arg_idx = Inr (ctx', arg_idx')"
  shows "wf_registry ctx'"
  using assms
proof (induction workv ctx arg_idx rule: parse_options.induct)
  case (1 workv ctx arg_idx)
  show ?case
  proof (cases "arg_idx < length workv")
    case False
    with "1.prems" show ?thesis by (simp add: parse_options.simps [of workv ctx arg_idx])
  next
    case True
    show ?thesis
    proof (cases "cs_option_index (workv ! arg_idx)")
      case None
      with True "1.prems" show ?thesis by (simp add: parse_options.simps [of workv ctx arg_idx])
    next
      case (Some cs_idx)
      with True "1.prems"(2) obtain c1 where
        nd: "\<not> arg_idx + 1 \<ge> length workv" and
        pc: "parse_custom_charset ctx cs_idx (workv ! (arg_idx + 1)) = Inr c1" and
        rest: "parse_options workv c1 (arg_idx + 2) = Inr (ctx', arg_idx')"
        by (auto simp: parse_options.simps [of workv ctx arg_idx] split: if_splits sum.splits)
      from parse_custom_charset_ok [OF "1.prems"(1) pc] have "wf_registry c1" .
      from "1.IH" [OF True Some nd pc this rest] show ?thesis .
    qed
  qed
qed

lemma wf_registry_positions:
  "wf_registry ctx \<Longrightarrow> length ps = PATTERN_MAX_POSITIONS \<Longrightarrow> wf_registry (ctx\<lparr>positions := ps\<rparr>)"
  by (simp add: wf_registry_def)

lemma unat_suc_u32:
  fixes n :: u32
  assumes "unat n < PATTERN_MAX_POSITIONS"
  shows "unat (n + 1) = unat n + 1"
  using assms by (simp add: unat_word_ariths PATTERN_MAX_POSITIONS_def)

lemma scanning_add_ok:
  assumes sc: "scanning ctx fw" and lt: "unat (num_positions ctx) < PATTERN_MAX_POSITIONS"
    and ok: "position_ok (f (positions ctx ! unat (num_positions ctx)))"
  shows "scanning ((set_position ctx f)\<lparr>num_positions := num_positions (set_position ctx f) + 1\<rparr>) fw"
proof -
  let ?n = "num_positions ctx"
  have len: "length (positions ctx) = PATTERN_MAX_POSITIONS"
    using sc by (simp add: scanning_def wf_registry_def)
  have n1: "unat (?n + 1) = unat ?n + 1" by (rule unat_suc_u32 [OF lt])
  have wf: "wf_registry ((set_position ctx f)\<lparr>num_positions := ?n + 1\<rparr>)"
    using sc len by (simp add: scanning_def wf_registry_def set_position_def)
  have wp: "fw \<Longrightarrow> word_position ctx < ?n + 1"
    using sc n1 by (simp add: scanning_def word_less_nat_alt)
  have wpn: "fw \<Longrightarrow> unat (word_position ctx) \<noteq> unat ?n"
    using sc by (auto simp: scanning_def word_less_nat_alt)
  show ?thesis
    unfolding scanning_def
    using wf wp wpn sc lt len ok n1
    by (auto simp: set_position_def nth_list_update scanning_def less_Suc_eq)
qed

lemma scanning_add_word:
  assumes sc: "scanning ctx False" and lt: "unat (num_positions ctx) < PATTERN_MAX_POSITIONS"
  shows "scanning ((set_position ctx word_slot)\<lparr>word_position := num_positions ctx,
            num_positions := num_positions ctx + 1\<rparr>) True"
proof -
  let ?n = "num_positions ctx"
  have len: "length (positions ctx) = PATTERN_MAX_POSITIONS"
    using sc by (simp add: scanning_def wf_registry_def)
  have n1: "unat (?n + 1) = unat ?n + 1" by (rule unat_suc_u32 [OF lt])
  have wf: "wf_registry ((set_position ctx word_slot)\<lparr>word_position := ?n, num_positions := ?n + 1\<rparr>)"
    using sc len by (simp add: scanning_def wf_registry_def set_position_def)
  have wp: "?n < ?n + 1" using n1 by (simp add: word_less_nat_alt)
  show ?thesis
    unfolding scanning_def
    using wf wp sc lt len n1
    by (auto simp: set_position_def nth_list_update scanning_def less_Suc_eq word_slot_def)
qed

lemma position_ok_charset:
  "t \<noteq> POS_WORD \<Longrightarrow> n \<noteq> 0 \<Longrightarrow> unat n \<le> length cs \<Longrightarrow> position_ok (charset_position t cs n pos)"
  by (simp add: position_ok_def charset_position_def)

lemma position_ok_literal: "position_ok (literal_position c pos)"
  by (simp add: position_ok_def literal_position_def)

lemma compile_specifier_ok:
  assumes sc: "scanning ctx fw" and lt: "unat (num_positions ctx) < PATTERN_MAX_POSITIONS"
    and cs: "compile_specifier ctx fw spec = Inr (c, fw')"
  shows "scanning (c\<lparr>num_positions := num_positions c + 1\<rparr>) fw' \<and>
         fw' = (fw \<or> spec = CHR ''W'') \<and> \<not> (fw \<and> spec = CHR ''W'')"
proof -
  have wf: "wf_registry ctx" using sc by (simp add: scanning_def)
  have cust: "cs_custom_defined ctx ! k \<Longrightarrow> k < 4 \<Longrightarrow>
      position_ok (charset_position t (cs_custom ctx ! k) (cs_custom_len ctx ! k) pos)"
    if "t \<noteq> POS_WORD" for k t pos
    using wf that by (intro position_ok_charset) (auto simp: wf_registry_def consts_defs)
  have builtin:
    "position_ok (charset_position POS_LOWER (cs_lower ctx) (of_nat CS_LOWER_LEN) pos)"
    "position_ok (charset_position POS_UPPER (cs_upper ctx) (of_nat CS_UPPER_LEN) pos)"
    "position_ok (charset_position POS_DIGIT (cs_digit ctx) (of_nat CS_DIGIT_LEN) pos)"
    "position_ok (charset_position POS_SPECIAL (cs_special ctx) (of_nat CS_SPECIAL_LEN) pos)"
    "position_ok (charset_position POS_ALL (cs_all ctx) (of_nat CS_ALL_LEN) pos)"
    "position_ok (charset_position POS_HEX_LOW (cs_hex_low ctx) (of_nat CS_HEX_LOW_LEN) pos)"
    "position_ok (charset_position POS_HEX_UP (cs_hex_up ctx) (of_nat CS_HEX_UP_LEN) pos)"
    "position_ok (charset_position POS_BINARY (cs_binary ctx) (of_nat CS_BINARY_LEN) pos)"
    for pos
    using wf by (auto intro!: position_ok_charset simp: wf_registry_def consts_defs)
  show ?thesis
  proof (cases "spec = CHR ''W''")
    case True
    with cs have nf: "\<not> fw" and eq: "c = (set_position ctx word_slot)\<lparr>word_position := num_positions ctx\<rparr>"
      "fw' = True"
      by (auto simp: compile_specifier_def split: if_splits)
    have "num_positions c = num_positions ctx" by (simp add: eq set_position_def)
    with scanning_add_word [OF _ lt] sc nf eq show ?thesis
      using True by (simp add: set_position_def)
  next
    case False
    with cs have fw: "fw' = fw" by (auto simp: compile_specifier_def split: if_splits)
    from cs False obtain f where c: "c = set_position ctx f"
      and ok: "position_ok (f (positions ctx ! unat (num_positions ctx)))"
      by (auto simp: compile_specifier_def builtin cust position_ok_literal split: if_splits)
    from scanning_add_ok [OF sc lt, of f, OF ok] c fw False show ?thesis by simp
  qed
qed

lemma parse_pattern_step_ok:
  assumes sc: "scanning ctx fw" and i: "i < length pat"
    and st: "parse_pattern_step pat ctx i fw = Inr (ctx', fw')"
  shows "scanning ctx' fw' \<and>
         fw' = (fw \<or> (pat ! i = CHR ''?'' \<and> pat ! (i + 1) = CHR ''W'')) \<and>
         \<not> (fw \<and> pat ! i = CHR ''?'' \<and> pat ! (i + 1) = CHR ''W'')"
proof -
  from st have lt: "unat (num_positions ctx) < PATTERN_MAX_POSITIONS"
    by (auto simp: parse_pattern_step_def split: if_splits)
  show ?thesis
  proof (cases "pat ! i = CHR ''?''")
    case True
    with st lt obtain c where cs: "compile_specifier ctx fw (pat ! (i + 1)) = Inr (c, fw')"
      and eq: "ctx' = c\<lparr>num_positions := num_positions c + 1\<rparr>"
      by (auto simp: parse_pattern_step_def split: if_splits sum.splits)
    from compile_specifier_ok [OF sc lt cs] eq True show ?thesis by auto
  next
    case False
    with st lt have eq: "ctx' = (set_position ctx (literal_position (of_char (pat ! i))))
         \<lparr>num_positions := num_positions (set_position ctx (literal_position (of_char (pat ! i)))) + 1\<rparr>"
      "fw' = fw"
      by (auto simp: parse_pattern_step_def Let_def split: if_splits)
    from scanning_add_ok [OF sc lt position_ok_literal] eq False show ?thesis by simp
  qed
qed


lemma word_placeholders_literal:
  "c \<noteq> CHR ''?'' \<Longrightarrow> word_placeholders (c # cs) = word_placeholders cs"
  by (cases cs) simp_all

lemma word_placeholders_drop:
  assumes "i < length pat"
  shows "word_placeholders (drop i pat) =
         (if pat ! i = CHR ''?'' then
            (if i + 1 < length pat
             then (if pat ! (i + 1) = CHR ''W'' then 1 else 0) + word_placeholders (drop (i + 2) pat)
             else 0)
          else word_placeholders (drop (i + 1) pat))"
proof -
  have d1: "drop i pat = pat ! i # drop (i + 1) pat"
    using assms by (simp add: Cons_nth_drop_Suc)
  show ?thesis
  proof (cases "i + 1 < length pat")
    case True
    then have d2: "drop (i + 1) pat = pat ! (i + 1) # drop (i + 2) pat"
      by (simp add: Cons_nth_drop_Suc)
    have "drop i pat = pat ! i # pat ! (i + 1) # drop (i + 2) pat"
      by (simp only: d1 d2)
    then have "word_placeholders (drop i pat) =
       (if pat ! i = CHR ''?'' then (if pat ! (i + 1) = CHR ''W'' then 1 else 0)
          + word_placeholders (drop (i + 2) pat)
        else word_placeholders (pat ! (i + 1) # drop (i + 2) pat))"
      by (simp only: word_placeholders.simps)
    then show ?thesis using True by (simp only: d2 [symmetric] if_True)
  next
    case False
    then have "drop (i + 1) pat = []" by simp
    with False show ?thesis by (simp add: d1)
  qed
qed

lemma parse_pattern_loop_ok:
  assumes "scanning ctx fw" "parse_pattern_loop pat ctx i fw = Inr (ctx', fw')"
  shows "scanning ctx' fw' \<and> found_count fw + word_placeholders (drop i pat) = found_count fw'"
  using assms
proof (induction pat ctx i fw rule: parse_pattern_loop.induct)
  case (1 pat ctx i fw)
  show ?case
  proof (cases "i < length pat")
    case False
    with "1.prems" show ?thesis
      by (simp add: parse_pattern_loop.simps [of pat ctx i fw])
  next
    case True
    let ?i' = "if pat ! i = CHR ''?'' then i + 2 else i + 1"
    from True "1.prems"(2) obtain c1 f1 where
      st: "parse_pattern_step pat ctx i fw = Inr (c1, f1)" and
      rest: "parse_pattern_loop pat c1 ?i' f1 = Inr (ctx', fw')"
      by (auto simp: parse_pattern_loop.simps [of pat ctx i fw] split: sum.splits)
    from parse_pattern_step_ok [OF "1.prems"(1) True st]
    have s: "scanning c1 f1"
      and f1: "f1 = (fw \<or> (pat ! i = CHR ''?'' \<and> pat ! (i + 1) = CHR ''W''))"
      and nd: "\<not> (fw \<and> pat ! i = CHR ''?'' \<and> pat ! (i + 1) = CHR ''W'')"
      by blast+
    from "1.IH" [OF True st] s rest
    have ih: "scanning ctx' fw'" "found_count f1 + word_placeholders (drop ?i' pat) = found_count fw'"
      by simp_all
    have dang: "pat ! i = CHR ''?'' \<Longrightarrow> i + 1 < length pat"
      using st by (auto simp: parse_pattern_step_def split: if_splits)
    have "found_count fw + word_placeholders (drop i pat)
          = found_count f1 + word_placeholders (drop ?i' pat)"
      using f1 nd dang by (auto simp: word_placeholders_drop [OF True] found_count_def)
    with ih show ?thesis by simp
  qed
qed

lemma fold_count_prefix_suffix_frame:
  "positions (fold count_prefix_suffix js ctx) = positions ctx \<and>
   num_positions (fold count_prefix_suffix js ctx) = num_positions ctx \<and>
   word_position (fold count_prefix_suffix js ctx) = word_position ctx"
  by (induction js arbitrary: ctx) (simp_all add: count_prefix_suffix_def)

lemma scanning_compiled: "scanning ctx True \<Longrightarrow> compiled ctx"
  by (auto simp: scanning_def compiled_def wf_registry_def word_less_nat_alt)

lemma compiled_cong:
  "compiled ctx \<Longrightarrow> positions c = positions ctx \<Longrightarrow> num_positions c = num_positions ctx \<Longrightarrow>
   word_position c = word_position ctx \<Longrightarrow> compiled c"
  by (simp add: compiled_def)

lemma scanning_start:
  "wf_registry ctx \<Longrightarrow>
   scanning (ctx\<lparr>num_positions := 0, word_position := - 1, prefix_len := 0, suffix_len := 0\<rparr>) False"
  by (simp add: scanning_def wf_registry_def)

lemma parse_pattern_ok:
  assumes "wf_registry ctx" "parse_pattern ctx pat = Inr ctx'"
  shows "compiled ctx' \<and> word_placeholders pat = 1"
proof -
  let ?c0 = "ctx\<lparr>num_positions := 0, word_position := - 1, prefix_len := 0, suffix_len := 0\<rparr>"
  from assms(2) obtain c1 where
    lp: "parse_pattern_loop pat ?c0 0 False = Inr (c1, True)" and
    eq: "ctx' = fold count_prefix_suffix [0..<unat (num_positions c1)] c1"
    by (auto simp: parse_pattern_def split: sum.splits if_splits)
  from parse_pattern_loop_ok [OF scanning_start [OF assms(1)] lp]
  have "scanning c1 True" "word_placeholders pat = 1"
    by (simp_all add: found_count_def)
  then show ?thesis
    using compiled_cong [OF scanning_compiled, of c1 ctx'] fold_count_prefix_suffix_frame [of _ c1]
    by (simp add: eq)
qed

lemma wf_registry_names:
  "wf_registry ctx \<Longrightarrow> wf_registry (ctx\<lparr>pattern := p, wordlist := w\<rparr>)"
  by (simp add: wf_registry_def)

lemma global_init_ok:
  assumes "global_init workv = Inr ctx"
  shows "compiled ctx"
proof -
  from assms obtain c1 k where
    po: "parse_options workv (init_charsets zero_global) 1 = Inr (c1, k)" and
    pp: "parse_pattern (c1\<lparr>pattern := workv ! k, wordlist := workv ! (k + 1)\<rparr>) (workv ! k) = Inr ctx"
    by (auto simp: global_init_def split: sum.splits if_splits)
  from parse_options_ok [OF wf_registry_init po] have "wf_registry c1" .
  from parse_pattern_ok [OF wf_registry_names [OF this] pp] show ?thesis by simp
qed

lemma record_word_length:
  "record_word w ls ll tabs = Inr tabs' \<Longrightarrow>
   length (fst tabs') = length (fst tabs) \<and> length (snd tabs') = length (snd tabs)"
  by (auto simp: record_word_def split: prod.splits if_splits)

lemma record_lines_length:
  "record_lines data i w ls tabs = Inr (w', ls', tabs') \<Longrightarrow>
   length (fst tabs') = length (fst tabs) \<and> length (snd tabs') = length (snd tabs)"
proof (induction data i w ls tabs rule: record_lines.induct)
  case (1 data i w ls tabs)
  show ?case
  proof (cases "i < length data")
    case False
    with "1.prems" show ?thesis by (simp add: record_lines.simps [of data i w ls tabs])
  next
    case True
    show ?thesis
    proof (cases "data ! i = 10")
      case False
      with True "1.prems" "1.IH"(2) show ?thesis
        by (simp add: record_lines.simps [of data i w ls tabs])
    next
      case nl: True
      with True "1.prems" obtain t1 where
        rw: "record_word w ls (strip_cr data ls (i - ls)) tabs = Inr t1" and
        rest: "record_lines data (i + 1) (w + 1) (i + 1) t1 = Inr (w', ls', tabs')"
        by (auto simp: record_lines.simps [of data i w ls tabs] split: sum.splits)
      from "1.IH"(1) [OF True nl rw rest] record_word_length [OF rw] show ?thesis by simp
    qed
  qed
qed

lemma build_word_index_frame:
  assumes "build_word_index ctx data = Inr ctx'"
  shows "\<exists>offs lens. ctx' = ctx\<lparr>word_count := count_words data, word_offsets := offs,
                                   word_lengths := lens\<rparr> \<and>
           length offs = unat (count_words data) \<and> length lens = unat (count_words data) \<and>
           count_words data \<noteq> 0"
proof -
  let ?n = "unat (count_words data)"
  from assms have nz: "count_words data \<noteq> 0"
    by (auto simp: build_word_index_def Let_def split: if_splits)
  from assms nz obtain w ls tabs where
    rl: "record_lines data 0 0 0 (replicate ?n 0, replicate ?n 0) = Inr (w, ls, tabs)"
    by (auto simp: build_word_index_def Let_def split: if_splits sum.splits)
  from record_lines_length [OF rl]
  have len: "length (fst tabs) = ?n" "length (snd tabs) = ?n" by simp_all
  show ?thesis
  proof (cases "ls < length data")
    case False
    with assms nz rl have "ctx' = ctx\<lparr>word_count := count_words data, word_offsets := fst tabs,
                                   word_lengths := snd tabs\<rparr>"
      by (auto simp: build_word_index_def Let_def split: if_splits)
    with len nz show ?thesis by blast
  next
    case True
    with assms nz rl obtain offs lens where
      rw: "record_word w ls (strip_cr data ls (length data - ls)) tabs = Inr (offs, lens)" and
      eq: "ctx' = ctx\<lparr>word_count := count_words data, word_offsets := offs, word_lengths := lens\<rparr>"
      by (auto simp: build_word_index_def Let_def split: if_splits sum.splits)
    from record_word_length [OF rw] len eq nz show ?thesis by auto
  qed
qed

lemma set_keyspace_fields:
  "set_keyspace ctx = ctx\<lparr>mask_keyspace := mask_keyspace (set_keyspace ctx),
                          total_keyspace := total_keyspace (set_keyspace ctx)\<rparr>"
  by (simp add: set_keyspace_def Let_def)

lemma calculate_mask_keyspace_cong:
  "positions c = positions ctx \<Longrightarrow> num_positions c = num_positions ctx \<Longrightarrow>
   calculate_mask_keyspace_loop c i k = calculate_mask_keyspace_loop ctx i k"
proof (induction ctx i k rule: calculate_mask_keyspace_loop.induct)
  case (1 ctx i keyspace)
  then show ?case
    by (subst calculate_mask_keyspace_loop.simps [of c])
       (subst calculate_mask_keyspace_loop.simps [of ctx], simp add: Let_def)
qed

lemma global_keyspace_indexed:
  assumes "global_keyspace ctx0 file = Inr ctx"
  shows "indexed ctx0 ctx"
proof -
  from assms obtain tctx where ti: "thread_init ctx0 file = Inr tctx"
    by (auto simp: global_keyspace_def split: sum.splits)
  with assms obtain c1 where
    bw: "build_word_index ctx0 (fd_mem tctx) = Inr c1" and
    eq: "ctx = set_keyspace (c1\<lparr>file_size := of_nat (length (fd_mem tctx))\<rparr>)"
    by (auto simp: global_keyspace_def split: sum.splits)
  from build_word_index_frame [OF bw] obtain offs lens where
    c1: "c1 = ctx0\<lparr>word_count := count_words (fd_mem tctx), word_offsets := offs,
                   word_lengths := lens\<rparr>" and
    len: "length offs = unat (count_words (fd_mem tctx))" "length lens = unat (count_words (fd_mem tctx))"
      "count_words (fd_mem tctx) \<noteq> 0"
    by blast
  let ?c2 = "c1\<lparr>file_size := of_nat (length (fd_mem tctx))\<rparr>"
  have mk: "calculate_mask_keyspace ctx = calculate_mask_keyspace ?c2"
    unfolding calculate_mask_keyspace_def eq
    by (rule calculate_mask_keyspace_cong) (simp_all add: set_keyspace_def Let_def)
  show ?thesis
    unfolding indexed_def mk
    using len by (simp add: eq c1 set_keyspace_def Let_def)
qed

lemma compiled_radix_pos:
  assumes "compiled ctx" "j < unat (num_positions ctx)"
  shows "0 < radix (positions ctx ! j)"
proof (cases "pos_type (positions ctx ! j) = POS_WORD")
  case True
  then show ?thesis by (simp add: radix_def)
next
  case False
  with assms have "j \<noteq> unat (word_position ctx)"
    by (auto simp: compiled_def)
  with assms have "position_ok (positions ctx ! j)"
    by (simp add: compiled_def)
  then show ?thesis by (simp add: radix_def position_ok_def unat_gt_0)
qed

lemma compiled_mask_keyspace:
  assumes "compiled ctx"
  shows "unat (calculate_mask_keyspace ctx) = min (mask_product ctx) 18446744073709551615"
proof -
  have "unat (num_positions ctx) \<le> length (positions ctx)"
    using assms by (simp add: compiled_def)
  from calculate_mask_keyspace_loop_value [OF this, of 0 1] compiled_radix_pos [OF assms]
  show ?thesis by (simp add: calculate_mask_keyspace_def mask_product_radix)
qed

lemma mask_product_pos: "compiled ctx \<Longrightarrow> 0 < mask_product ctx"
  unfolding mask_product_radix
  by (rule prod_list_pos) (auto simp: in_set_conv_nth compiled_radix_pos compiled_def)

lemma total_keyspace_value:
  fixes wc mk :: u64
  assumes "mk \<noteq> 0"
  shows "unat (if mk > 0 \<and> wc > UINT64_MAX div mk then UINT64_MAX else wc * mk)
         = min (unat wc * unat mk) 18446744073709551615"
proof (cases "wc > UINT64_MAX div mk")
  case True
  then have "unat mk * unat wc > 18446744073709551615"
    using overflow_test [OF assms] by simp
  with True assms show ?thesis
    by (simp add: word_greater_zero_iff UINT64_MAX_def mult.commute)
next
  case False
  then have "unat mk * unat wc \<le> 18446744073709551615"
    using overflow_test [OF assms] by simp
  with False unat_mult_exact [of mk wc] show ?thesis
    by (simp add: mult.commute)
qed

lemma take_Suc_prod: "k < length ps \<Longrightarrow>
  prod_list (map radix (take (Suc k) ps)) = prod_list (map radix (take k ps)) * radix (ps ! k)"
  by (simp add: take_Suc_conv_app_nth)

lemma loop_step:
  assumes "k < length ps" "k < length ind"
    "pos_type (ps ! k) \<noteq> POS_WORD \<longrightarrow> charset_len (ps ! k) \<noteq> 0"
  shows "\<exists>r' x. index_to_mask_indices_loop ps (Suc k) r ind =
                 index_to_mask_indices_loop ps k r' (ind[k := x]) \<and>
               unat r' = unat r div radix (ps ! k) \<and> unat x = unat r mod radix (ps ! k)"
proof (cases "pos_type (ps ! k) = POS_WORD")
  case True
  with assms show ?thesis
    by (intro exI [of _ r] exI [of _ 0]) (simp add: radix_def)
next
  case False
  let ?c = "charset_len (ps ! k)"
  have c: "?c \<noteq> 0" using assms False by simp
  have lt: "unat r mod unat ?c < 4294967296"
    using unat_u32_bound [of ?c] c
    by (meson less_trans mod_less_divisor unat_gt_0)
  have x: "unat (ucast (r mod ucast ?c) :: u32) = unat r mod unat ?c"
    using lt by (simp add: unat_ucast_u64_u32 unat_mod unat_ucast_u32_u64)
  have r': "unat (r div ucast ?c) = unat r div unat ?c"
    by (simp add: unat_div unat_ucast_u32_u64)
  from assms False c x r' show ?thesis
    by (intro exI [of _ "r div ucast ?c"] exI [of _ "ucast (r mod ucast ?c)"])
       (simp add: radix_def Let_def)
qed

lemma index_to_mask_indices_loop_digits:
  assumes "k \<le> length ps" "k \<le> length ind"
    "\<forall>j<k. pos_type (ps ! j) \<noteq> POS_WORD \<longrightarrow> charset_len (ps ! j) \<noteq> 0"
  shows "\<exists>d. index_to_mask_indices_loop ps k r ind = Inr d \<and> length d = length ind \<and>
             (\<forall>j. k \<le> j \<longrightarrow> d ! j = ind ! j) \<and>
             (\<forall>j<k. unat (d ! j) < radix (ps ! j)) \<and>
             horner ps d k = unat r mod prod_list (map radix (take k ps))"
  using assms
proof (induction k arbitrary: r ind)
  case 0
  then show ?case by simp
next
  case (Suc k)
  have k: "k < length ps" "k < length ind" using Suc.prems by simp_all
  have nz: "pos_type (ps ! k) \<noteq> POS_WORD \<longrightarrow> charset_len (ps ! k) \<noteq> 0"
    using Suc.prems(3) by simp
  have rp: "0 < radix (ps ! k)" using nz by (auto simp: radix_def unat_gt_0)
  from loop_step [OF k nz, of r] obtain r' x where
    st: "index_to_mask_indices_loop ps (Suc k) r ind = index_to_mask_indices_loop ps k r' (ind[k := x])"
    and r': "unat r' = unat r div radix (ps ! k)" and x: "unat x = unat r mod radix (ps ! k)"
    by blast
  from Suc.IH [of "ind[k := x]" r'] Suc.prems k obtain d where
    d: "index_to_mask_indices_loop ps k r' (ind[k := x]) = Inr d" "length d = length ind"
      "\<forall>j. k \<le> j \<longrightarrow> d ! j = (ind[k := x]) ! j" "\<forall>j<k. unat (d ! j) < radix (ps ! j)"
      "horner ps d k = unat r' mod prod_list (map radix (take k ps))"
    by auto
  have dk: "d ! k = x" using d(3) k by simp
  have later: "\<forall>j. Suc k \<le> j \<longrightarrow> d ! j = ind ! j" using d(3) by simp
  have dig: "\<forall>j<Suc k. unat (d ! j) < radix (ps ! j)"
    using d(4) dk x rp by (auto simp: less_Suc_eq)
  have "horner ps d (Suc k) = (unat r div radix (ps ! k) mod prod_list (map radix (take k ps)))
          * radix (ps ! k) + unat r mod radix (ps ! k)"
    by (simp add: d(5) dk x r')
  also have "\<dots> = unat r mod (radix (ps ! k) * prod_list (map radix (take k ps)))"
    by (simp add: mod_mult2_eq mult.commute)
  finally have "horner ps d (Suc k) = unat r mod prod_list (map radix (take (Suc k) ps))"
    by (simp add: take_Suc_prod [OF k(1)] mult.commute)
  with st d(1,2) later dig show ?case by auto
qed

lemma horner_bound:
  assumes "k \<le> length ps" "\<forall>j<k. unat (d ! j) < radix (ps ! j)"
  shows "horner ps d k < prod_list (map radix (take k ps))"
  using assms
proof (induction k)
  case 0
  then show ?case by simp
next
  case (Suc k)
  let ?P = "prod_list (map radix (take k ps))"
  let ?R = "radix (ps ! k)"
  have h: "horner ps d k < ?P" using Suc by simp
  have dk: "unat (d ! k) < ?R" using Suc.prems by simp
  have "horner ps d k * ?R + unat (d ! k) < (horner ps d k + 1) * ?R"
    using dk by simp
  also have "\<dots> \<le> ?P * ?R"
    using h by (intro mult_le_mono1) simp
  finally show ?case using Suc.prems(1) by (simp add: take_Suc_prod)
qed

lemma index_to_mask_indices_loop_inverse:
  assumes "k \<le> length ps" "k \<le> length ind" "length d = length ind"
    "\<forall>j<k. unat (d ! j) < radix (ps ! j)" "unat r = horner ps d k"
  shows "index_to_mask_indices_loop ps k r ind = Inr (take k d @ drop k ind)"
  using assms
proof (induction k arbitrary: r ind)
  case 0
  then show ?case by simp
next
  case (Suc k)
  have k: "k < length ps" "k < length ind" "k < length d" using Suc.prems by simp_all
  have dk: "unat (d ! k) < radix (ps ! k)" using Suc.prems(4) by simp
  have nz: "pos_type (ps ! k) \<noteq> POS_WORD \<longrightarrow> charset_len (ps ! k) \<noteq> 0"
    using dk by (auto simp: radix_def)
  from loop_step [OF k(1,2) nz, of r] obtain r' x where
    st: "index_to_mask_indices_loop ps (Suc k) r ind = index_to_mask_indices_loop ps k r' (ind[k := x])"
    and r': "unat r' = unat r div radix (ps ! k)" and x: "unat x = unat r mod radix (ps ! k)"
    by blast
  have ur: "unat r = horner ps d k * radix (ps ! k) + unat (d ! k)"
    using Suc.prems(5) by simp
  have "unat x = unat (d ! k)" using x ur dk by simp
  then have xe: "x = d ! k" by (simp add: word_unat_eq_iff)
  have "unat r' = horner ps d k" using r' ur dk by simp
  from Suc.IH [of "ind[k := x]" r'] this Suc.prems k
  have "index_to_mask_indices_loop ps k r' (ind[k := x]) = Inr (take k d @ drop k (ind[k := x]))"
    by simp
  also have "drop k (ind[k := x]) = x # drop (Suc k) ind"
    using k(2) by (simp add: drop_update_cancel Cons_nth_drop_Suc [symmetric] upd_conv_take_nth_drop)
  also have "take k d @ x # drop (Suc k) ind = take (Suc k) d @ drop (Suc k) ind"
    using k(3) xe by (simp add: take_Suc_conv_app_nth)
  finally show ?case using st by simp
qed

lemma sint_small:
  fixes n :: u32
  assumes "unat n < 2147483648"
  shows "sint n = int (unat n)"
proof -
  have "int (unat n) < 2147483648" using assms by linarith
  then have u: "uint n < 2 ^ 31" by simp
  have l: "- (2 ^ 31) \<le> uint n" by (rule order_trans [of _ 0]) simp_all
  have "signed_take_bit 31 (uint n) = uint n"
    by (rule signed_take_bit_int_eq_self [OF l u])
  then have "sint n = uint n"
    by (simp add: sint_uint)
  then show ?thesis by simp
qed

lemma compiled_loop_count:
  "compiled ctx \<Longrightarrow> nat (sint (num_positions ctx)) = unat (num_positions ctx)"
  by (simp add: compiled_def PATTERN_MAX_POSITIONS_def sint_small)

lemma compiled_nonzero:
  assumes "compiled ctx"
  shows "\<forall>j<unat (num_positions ctx).
           pos_type (positions ctx ! j) \<noteq> POS_WORD \<longrightarrow> charset_len (positions ctx ! j) \<noteq> 0"
proof (intro allI impI)
  fix j assume "j < unat (num_positions ctx)" "pos_type (positions ctx ! j) \<noteq> POS_WORD"
  with compiled_radix_pos [OF assms, of j] show "charset_len (positions ctx ! j) \<noteq> 0"
    by (auto simp: radix_def)
qed

lemma valid_digits_radix:
  "valid_digits ctx d =
     (length d = PATTERN_MAX_POSITIONS \<and>
      (\<forall>j<unat (num_positions ctx). unat (d ! j) < radix (positions ctx ! j)))"
  by (auto simp: valid_digits_def radix_def word_less_nat_alt unat_eq_0 [symmetric])

lemma digits_to_index_horner:
  assumes "valid_digits ctx d"
  shows "digits_to_index ctx d = horner (positions ctx) d (unat (num_positions ctx))"
proof -
  have "k \<le> unat (num_positions ctx) \<Longrightarrow>
        foldl (\<lambda>acc i. if pos_type (positions ctx ! i) = POS_WORD then acc
                        else acc * unat (charset_len (positions ctx ! i)) + unat (d ! i)) 0 [0..<k]
        = horner (positions ctx) d k" for k
  proof (induction k)
    case 0
    then show ?case by simp
  next
    case (Suc k)
    then have "pos_type (positions ctx ! k) = POS_WORD \<Longrightarrow> d ! k = 0"
      using assms by (auto simp: valid_digits_def)
    with Suc show ?case by (auto simp: radix_def)
  qed
  then show ?thesis by (simp add: digits_to_index_def)
qed

lemma index_to_mask_indices_digits:
  assumes c: "compiled ctx" and len: "length ind = PATTERN_MAX_POSITIONS"
  shows "\<exists>d. index_to_mask_indices ctx m ind = Inr d \<and> valid_digits ctx d \<and>
             (\<forall>j. unat (num_positions ctx) \<le> j \<longrightarrow> d ! j = ind ! j) \<and>
             digits_to_index ctx d = unat m mod mask_product ctx"
proof -
  let ?n = "unat (num_positions ctx)"
  have n: "?n \<le> length (positions ctx)" "?n \<le> length ind"
    using c len by (simp_all add: compiled_def)
  from index_to_mask_indices_loop_digits [OF n compiled_nonzero [OF c], of m]
  obtain d where d: "index_to_mask_indices_loop (positions ctx) ?n m ind = Inr d"
    "length d = length ind" "\<forall>j. ?n \<le> j \<longrightarrow> d ! j = ind ! j"
    "\<forall>j<?n. unat (d ! j) < radix (positions ctx ! j)"
    "horner (positions ctx) d ?n = unat m mod prod_list (map radix (take ?n (positions ctx)))"
    by blast
  have v: "valid_digits ctx d" using d(2,4) len by (simp add: valid_digits_radix)
  from d v show ?thesis
    by (simp add: index_to_mask_indices_def compiled_loop_count [OF c] digits_to_index_horner
        mask_product_radix)
qed

lemma index_to_mask_indices_inverse:
  assumes c: "compiled ctx" and len: "length ind = PATTERN_MAX_POSITIONS"
    and v: "valid_digits ctx d" and fits: "mask_product ctx \<le> 18446744073709551615"
  shows "index_to_mask_indices ctx (of_nat (digits_to_index ctx d)) ind
         = Inr (take (unat (num_positions ctx)) d @ drop (unat (num_positions ctx)) ind)"
proof -
  let ?n = "unat (num_positions ctx)"
  have n: "?n \<le> length (positions ctx)" "?n \<le> length ind"
    using c len by (simp_all add: compiled_def)
  have dig: "\<forall>j<?n. unat (d ! j) < radix (positions ctx ! j)" "length d = length ind"
    using v len by (simp_all add: valid_digits_radix)
  have "horner (positions ctx) d ?n < mask_product ctx"
    using horner_bound [OF n(1) dig(1)] by (simp add: mask_product_radix)
  then have "unat (of_nat (horner (positions ctx) d ?n) :: u64) = horner (positions ctx) d ?n"
    using fits by (simp add: unat_of_nat)
  from index_to_mask_indices_loop_inverse [OF n dig(2,1) this]
  show ?thesis
    by (simp add: index_to_mask_indices_def compiled_loop_count [OF c] digits_to_index_horner [OF v])
qed

lemma odometer_bijection:
  assumes c: "compiled ctx"
    and fits: "mask_product ctx \<le> 18446744073709551615"
    and len: "length ind = PATTERN_MAX_POSITIONS"
  shows "(\<forall>m. unat m < mask_product ctx \<longrightarrow>
            (\<exists>d. index_to_mask_indices ctx m ind = Inr d \<and> digits_to_index ctx d = unat m)) \<and>
         bij_betw (\<lambda>m. index_to_mask_indices ctx m ind) {m. unat m < mask_product ctx}
           {Inr d | d. valid_digits ctx d \<and>
                       drop (unat (num_positions ctx)) d = drop (unat (num_positions ctx)) ind}"
proof -
  let ?n = "unat (num_positions ctx)"
  let ?f = "\<lambda>m. index_to_mask_indices ctx m ind"
  let ?A = "{m. unat m < mask_product ctx}"
  let ?B = "{(Inr d :: fault + u32 list) | d. valid_digits ctx d \<and> drop ?n d = drop ?n ind}"
  have fwd: "\<exists>d. ?f m = Inr d \<and> valid_digits ctx d \<and> drop ?n d = drop ?n ind \<and>
                 digits_to_index ctx d = unat m" if "m \<in> ?A" for m
  proof -
    from index_to_mask_indices_digits [OF c len, of m] obtain d where
      d: "?f m = Inr d" "valid_digits ctx d" "\<forall>j. ?n \<le> j \<longrightarrow> d ! j = ind ! j"
        "digits_to_index ctx d = unat m mod mask_product ctx"
      by blast
    have "length d = length ind" using d(2) len by (simp add: valid_digits_def)
    then have "drop ?n d = drop ?n ind"
      using d(3) by (intro nth_equalityI) simp_all
    with d that show ?thesis by auto
  qed
  have inj: "inj_on ?f ?A"
  proof (rule inj_onI)
    fix m m' assume m: "m \<in> ?A" "m' \<in> ?A" and eq: "?f m = ?f m'"
    from fwd [OF m(1)] fwd [OF m(2)] eq have "unat m = unat m'" by auto
    then show "m = m'" by (simp add: word_unat_eq_iff)
  qed
  have img: "?f ` ?A = ?B"
  proof (intro set_eqI iffI)
    fix y assume "y \<in> ?f ` ?A"
    then obtain m where "m \<in> ?A" "y = ?f m" by blast
    with fwd [of m] show "y \<in> ?B" by auto
  next
    fix y assume "y \<in> ?B"
    then obtain d where y: "y = Inr d" and v: "valid_digits ctx d" and
      tl: "drop ?n d = drop ?n ind" by blast
    let ?m = "of_nat (digits_to_index ctx d) :: u64"
    have n: "?n \<le> length (positions ctx)" using c by (simp add: compiled_def)
    have "digits_to_index ctx d < mask_product ctx"
      using horner_bound [OF n] v
      by (simp add: digits_to_index_horner [OF v] valid_digits_radix mask_product_radix)
    then have mA: "?m \<in> ?A" using fits by (simp add: unat_of_nat)
    have "?f ?m = Inr (take ?n d @ drop ?n ind)"
      by (rule index_to_mask_indices_inverse [OF c len v fits])
    also have "take ?n d @ drop ?n ind = d" using tl by (metis append_take_drop_id)
    finally show "y \<in> ?f ` ?A" using y mA by (metis (mono_tags, lifting) image_eqI)
  qed
  from fwd inj img show ?thesis
    unfolding bij_betw_def by blast
qed

lemma put_entries_Nil: "put_entries w [] tabs = tabs"
  by (simp add: put_entries_def)

lemma record_word_put:
  assumes "w < length (fst tabs)" "w < length (snd tabs)"
  shows "record_word w ls ll tabs = Inr (put_entries w [(ls, ll)] tabs)"
  using assms
  by (cases tabs) (simp add: record_word_def put_entries_def upd_conv_take_nth_drop)

lemma put_entries_Cons:
  assumes "w < length (fst tabs)" "w < length (snd tabs)"
  shows "put_entries (Suc w) es (put_entries w [e] tabs) = put_entries w (e # es) tabs"
proof -
  have a: "take (Suc w) (take w xs @ x # drop (Suc w) xs) = take w xs @ [x]"
    if "w < length xs" for xs :: "'a list" and x
    using that by (simp add: min_def)
  have b: "drop (Suc (w + n)) (take w xs @ x # drop (Suc w) xs) = drop (Suc (w + n)) xs"
    if "w < length xs" for xs :: "'a list" and x n
    using that by (simp add: min_def add.commute)
  show ?thesis using assms by (simp add: put_entries_def a b add.commute)
qed

lemma put_entries_length:
  "w + length es \<le> length (fst tabs) \<Longrightarrow> w + length es \<le> length (snd tabs) \<Longrightarrow>
   length (fst (put_entries w es tabs)) = length (fst tabs) \<and>
   length (snd (put_entries w es tabs)) = length (snd tabs)"
  by (auto simp: put_entries_def)

lemma line_table_no_newline:
  assumes "data \<noteq> []" "10 \<notin> set data"
  shows "line_table s data = [(s, trimmed_length data)]"
proof -
  obtain b bs where d: "data = b # bs" using assms(1) by (cases data) auto
  have tw: "takeWhile (\<lambda>x. x \<noteq> 10) data = data"
    using assms(2) by (simp add: takeWhile_eq_all_conv) metis
  show ?thesis
    using tw unfolding d by (simp add: line_table.simps Let_def)
qed

lemma line_table_at_newline:
  assumes "ls \<le> i" "i < length data" "data ! i = 10" "\<forall>j. ls \<le> j \<and> j < i \<longrightarrow> data ! j \<noteq> 10"
  shows "line_table ls (drop ls data) =
         (ls, trimmed_length (take (i - ls) (drop ls data))) # line_table (i + 1) (drop (i + 1) data)"
proof -
  let ?seg = "drop ls data"
  have ne: "?seg \<noteq> []" using assms(1,2) by simp
  then obtain b bs where d: "?seg = b # bs" by (cases ?seg) auto
  have il: "i - ls < length ?seg" using assms(1,2) by simp
  have at: "?seg ! (i - ls) = 10" using assms(1,2,3) by simp
  have split: "?seg = take (i - ls) ?seg @ 10 # drop (i - ls + 1) ?seg"
    using id_take_nth_drop [OF il] at by simp
  have pre: "\<forall>x \<in> set (take (i - ls) ?seg). x \<noteq> 10"
  proof
    fix x assume "x \<in> set (take (i - ls) ?seg)"
    then obtain j where j: "j < length (take (i - ls) ?seg)" "x = take (i - ls) ?seg ! j"
      by (metis in_set_conv_nth)
    then have "x = data ! (ls + j)" "ls + j < i" using assms(1,2) by auto
    then show "x \<noteq> 10" using assms(4) by simp
  qed
  have tw: "takeWhile (\<lambda>x. x \<noteq> 10) ?seg = take (i - ls) ?seg"
    by (subst split) (simp add: takeWhile_append2 pre)
  have len: "length (take (i - ls) ?seg) = i - ls" using assms(1,2) by simp
  have dr: "drop (i - ls + 1) ?seg = drop (i + 1) data" using assms(1) by simp
  have "line_table ls ?seg =
        (ls, trimmed_length (takeWhile (\<lambda>x. x \<noteq> 10) ?seg))
        # line_table (ls + length (takeWhile (\<lambda>x. x \<noteq> 10) ?seg) + 1)
            (drop (length (takeWhile (\<lambda>x. x \<noteq> 10) ?seg) + 1) ?seg)"
    unfolding d by (simp add: line_table.simps Let_def)
  then show ?thesis
    using assms(1) by (simp only: tw len dr) simp
qed

lemma strip_cr_trimmed:
  assumes "ls + n \<le> length data"
  shows "strip_cr data ls n = trimmed_length (take n (drop ls data))"
proof (cases "n = 0")
  case True
  then show ?thesis by (simp add: strip_cr_def trimmed_length_def)
next
  case False
  then have ne: "take n (drop ls data) \<noteq> []" using assms by auto
  have len: "length (take n (drop ls data)) = n" using assms by simp
  have "last (take n (drop ls data)) = take n (drop ls data) ! (n - 1)"
    using ne len by (simp add: last_conv_nth)
  also have "\<dots> = drop ls data ! (n - 1)" using False by simp
  also have "\<dots> = data ! (ls + (n - 1))" using assms False by simp
  also have "ls + (n - 1) = ls + n - 1" using False by simp
  finally have "last (take n (drop ls data)) = data ! (ls + n - 1)" .
  then show ?thesis using False ne len
    by (simp add: strip_cr_def trimmed_length_def)
qed

lemma record_all_table:
  assumes "ls \<le> i" "i \<le> length data" "\<forall>j. ls \<le> j \<and> j < i \<longrightarrow> data ! j \<noteq> 10"
    "w + length (line_table ls (drop ls data)) \<le> length (fst tabs)"
    "w + length (line_table ls (drop ls data)) \<le> length (snd tabs)"
  shows "record_all data i w ls tabs = Inr (put_entries w (line_table ls (drop ls data)) tabs)"
  using assms
proof (induction data i w ls tabs rule: record_lines.induct)
  case (1 data i w ls tabs)
  let ?LT = "line_table ls (drop ls data)"
  show ?case
  proof (cases "i < length data")
    case False
    then have i: "i = length data" using "1.prems"(2) by simp
    have rl: "record_lines data i w ls tabs = Inr (w, ls, tabs)"
      using False by (simp add: record_lines.simps [of data i w ls tabs])
    show ?thesis
    proof (cases "ls < length data")
      case False
      then have "drop ls data = []" by simp
      then have "?LT = []" by (simp add: line_table.simps)
      with rl False show ?thesis by (simp add: record_all_def put_entries_Nil)
    next
      case True
      have nn: "10 \<notin> set (drop ls data)"
      proof
        assume "10 \<in> set (drop ls data)"
        then obtain j where "j < length (drop ls data)" "drop ls data ! j = 10"
          by (metis in_set_conv_nth)
        then have "data ! (ls + j) = 10" "ls + j < i" using i True by auto
        with "1.prems"(3) show False by simp
      qed
      have lt: "?LT = [(ls, trimmed_length (drop ls data))]"
        using True by (intro line_table_no_newline nn) simp
      have sc: "strip_cr data ls (length data - ls) = trimmed_length (drop ls data)"
        using strip_cr_trimmed [of ls "length data - ls" data] True by simp
      have w: "w < length (fst tabs)" "w < length (snd tabs)"
        using "1.prems"(4,5) lt by simp_all
      from rl True record_word_put [OF w] show ?thesis
        by (simp add: record_all_def lt sc)
    qed
  next
    case True
    show ?thesis
    proof (cases "data ! i = 10")
      case False
      have inv: "\<forall>j. ls \<le> j \<and> j < i + 1 \<longrightarrow> data ! j \<noteq> 10"
        using "1.prems"(3) False by (auto simp: less_Suc_eq)
      have "record_all data i w ls tabs = record_all data (i + 1) w ls tabs"
        using True False
        by (simp add: record_all_def record_lines.simps [of data i w ls tabs])
      also have "\<dots> = Inr (put_entries w ?LT tabs)"
        using "1.IH"(2) [OF True False _ _ inv "1.prems"(4,5)] "1.prems"(1) True by simp
      finally show ?thesis .
    next
      case nl: True
      let ?e = "(ls, trimmed_length (take (i - ls) (drop ls data)))"
      let ?rest = "line_table (i + 1) (drop (i + 1) data)"
      have lt: "?LT = ?e # ?rest"
        by (rule line_table_at_newline [OF "1.prems"(1) True nl "1.prems"(3)])
      have w: "w < length (fst tabs)" "w < length (snd tabs)"
        using "1.prems"(4,5) lt by simp_all
      have sc: "strip_cr data ls (i - ls) = trimmed_length (take (i - ls) (drop ls data))"
        using strip_cr_trimmed [of ls "i - ls" data] True "1.prems"(1) by simp
      have rw: "record_word w ls (strip_cr data ls (i - ls)) tabs = Inr (put_entries w [?e] tabs)"
        using record_word_put [OF w] sc by simp
      have len1: "length (fst (put_entries w [?e] tabs)) = length (fst tabs)"
        "length (snd (put_entries w [?e] tabs)) = length (snd tabs)"
        using put_entries_length [of w "[?e]" tabs] w by simp_all
      have triv: "\<forall>j. i + 1 \<le> j \<and> j < i + 1 \<longrightarrow> data ! j \<noteq> 10" by auto
      have "record_all data i w ls tabs = record_all data (i + 1) (w + 1) (i + 1) (put_entries w [?e] tabs)"
        using True nl rw
        by (simp add: record_all_def record_lines.simps [of data i w ls tabs])
      also have "\<dots> = Inr (put_entries (w + 1) ?rest (put_entries w [?e] tabs))"
        using "1.IH"(1) [OF True nl rw _ _ triv] True "1.prems"(4,5) lt len1 by simp
      also have "put_entries (w + 1) ?rest (put_entries w [?e] tabs) = put_entries w ?LT tabs"
        using put_entries_Cons [OF w] lt by simp
      finally show ?thesis .
    qed
  qed
qed

lemma replicate_32: "replicate 32 x = [x, x, x] @ replicate 29 x"
proof -
  have "replicate (3 + 29) x = replicate 3 x @ replicate 29 x" by (rule replicate_add)
  then show ?thesis by (simp add: numeral_3_eq_3)
qed

lemmas eval_init = global_init_def parse_options.simps cs_option_index_def
  parse_pattern_def parse_pattern_loop.simps parse_pattern_step_def compile_specifier_def
  set_position_def charset_position_def literal_position_def word_slot_def count_prefix_suffix_def
  init_charsets_def zero_global_def consts_defs upt_conv_Cons Let_def replicate_32

lemma example_global_init: "global_init [''plugin'', ''?d?W!'', ''words''] = Inr example_compiled"
  by (simp add: eval_init example_compiled_def) (simp add: zero_position_def)

lemma example_mask_product: "mask_product example_compiled = 10"
proof -
  have n: "unat (num_positions example_compiled) = 3" by (simp add: example_compiled_def)
  have t: "take 3 (positions example_compiled) =
     [\<lparr>pos_type = POS_DIGIT, literal_char = 0, charset_len = 10, charset = Some CHARSET_DIGIT\<rparr>,
      \<lparr>pos_type = POS_WORD, literal_char = 0, charset_len = 0, charset = None\<rparr>,
      \<lparr>pos_type = POS_LITERAL, literal_char = 33, charset_len = 1, charset = Some [33]\<rparr>]"
    by (simp add: example_compiled_def)
  show ?thesis by (simp add: mask_product_def n t)
qed


text \<open>
  C3. \<^verbatim>\<open>index_to_mask_indices\<close> is the odometer decomposition with the last position
  least significant: reading the digits back from the first position to the last, each
  non-word position with its charset size as the radix, gives the mask index again. For
  a compiled pattern whose mask keyspace is not saturated, the function maps the mask
  indices below the mask keyspace one-to-one onto the digit arrays that are 0 at the
  word position and less than the charset size at every other position of the pattern
  (the entries of the array beyond the pattern are left as they were).
\<close>

theorem index_to_mask_indices_bijection:
  assumes "global_init workv = Inr ctx"
    and "mask_product ctx < 2 ^ 64"
    and "length ind = PATTERN_MAX_POSITIONS"
  shows "(\<forall>m. m < calculate_mask_keyspace ctx \<longrightarrow>
            (\<exists>d. index_to_mask_indices ctx m ind = Inr d \<and> digits_to_index ctx d = unat m)) \<and>
         bij_betw (\<lambda>m. index_to_mask_indices ctx m ind) {m. m < calculate_mask_keyspace ctx}
           {Inr d | d. valid_digits ctx d \<and>
                       drop (unat (num_positions ctx)) d = drop (unat (num_positions ctx)) ind}"
proof -
  have c: "compiled ctx" by (rule global_init_ok [OF assms(1)])
  have fits: "mask_product ctx \<le> 18446744073709551615" using assms(2) by simp
  have "unat (calculate_mask_keyspace ctx) = mask_product ctx"
    using compiled_mask_keyspace [OF c] fits by simp
  then have "m < calculate_mask_keyspace ctx \<longleftrightarrow> unat m < mask_product ctx" for m
    by (simp add: word_less_nat_alt)
  with odometer_bijection [OF c fits assms(3)] show ?thesis by simp
qed

theorem index_to_mask_indices_bijection_witness:
  "global_init [''plugin'', ''?d?W!'', ''words''] = Inr example_compiled \<and>
   mask_product example_compiled < 2 ^ 64 \<and>
   length (replicate 32 (0 :: u32)) = PATTERN_MAX_POSITIONS \<and>
   (7 :: u64) < calculate_mask_keyspace example_compiled \<and>
   (\<exists>d. index_to_mask_indices example_compiled 7 (replicate 32 0) = Inr d \<and>
        digits_to_index example_compiled d = 7) \<and>
   bij_betw (\<lambda>m. index_to_mask_indices example_compiled m (replicate 32 0))
     {m. m < calculate_mask_keyspace example_compiled}
     {Inr d | d. valid_digits example_compiled d \<and>
                 drop (unat (num_positions example_compiled)) d
                 = drop (unat (num_positions example_compiled)) (replicate 32 0)}"
proof -
  have a: "mask_product example_compiled < 2 ^ 64" by (simp add: example_mask_product)
  have b: "length (replicate 32 (0 :: u32)) = PATTERN_MAX_POSITIONS"
    by (simp add: PATTERN_MAX_POSITIONS_def)
  have "unat (calculate_mask_keyspace example_compiled) = 10"
    using compiled_mask_keyspace [OF global_init_ok [OF example_global_init]]
    by (simp add: example_mask_product)
  then have k: "(7 :: u64) < calculate_mask_keyspace example_compiled"
    by (simp add: word_less_nat_alt)
  note inst = index_to_mask_indices_bijection [OF example_global_init a b]
  from inst k have "\<exists>d. index_to_mask_indices example_compiled 7 (replicate 32 0) = Inr d \<and>
        digits_to_index example_compiled d = unat (7 :: u64)"
    by blast
  then have r: "\<exists>d. index_to_mask_indices example_compiled 7 (replicate 32 0) = Inr d \<and>
        digits_to_index example_compiled d = 7"
    by simp
  from inst have bij: "bij_betw (\<lambda>m. index_to_mask_indices example_compiled m (replicate 32 0))
     {m. m < calculate_mask_keyspace example_compiled}
     {Inr d | d. valid_digits example_compiled d \<and>
                 drop (unat (num_positions example_compiled)) d
                 = drop (unat (num_positions example_compiled)) (replicate 32 0)}"
    by (rule conjunct2)
  show ?thesis
    by (intro conjI example_global_init a b k r bij)
qed

lemma count_newlines_count: "count_newlines data c = c + of_nat (count_list data 10)"
  by (induction data arbitrary: c) simp_all

lemma count_list_zero: "x \<notin> set xs \<Longrightarrow> count_list xs x = 0"
  by (induction xs) auto

lemma count_list_split:
  "data = line @ 10 # rs \<Longrightarrow> 10 \<notin> set line \<Longrightarrow> count_list data 10 = 1 + count_list rs 10"
  by (simp add: count_list_zero)

lemma last_split:
  "data = line @ 10 # rs \<Longrightarrow> (last data \<noteq> (10 :: u8)) = (rs \<noteq> [] \<and> last rs \<noteq> 10)"
  by simp

lemma line_table_length:
  "length (line_table s data) =
     count_list data 10 + (if data \<noteq> [] \<and> last data \<noteq> 10 then 1 else 0)"
proof (induction s data rule: line_table.induct)
  case (1 start)
  then show ?case by (simp add: line_table.simps)
next
  case (2 start b bs)
  let ?data = "b # bs"
  let ?line = "takeWhile (\<lambda>x. x \<noteq> 10) ?data"
  let ?rem = "dropWhile (\<lambda>x. x \<noteq> 10) ?data"
  let ?rest = "drop (length ?line + 1) ?data"
  have data: "?data = ?line @ ?rem" by simp
  have no: "10 \<notin> set ?line" by (metis (mono_tags, lifting) set_takeWhileD)
  have lt: "length (line_table start ?data) = 1 + length (line_table (start + length ?line + 1) ?rest)"
    by (simp add: line_table.simps Let_def)
  have ih: "length (line_table (start + length ?line + 1) ?rest) =
      count_list ?rest 10 + (if ?rest \<noteq> [] \<and> last ?rest \<noteq> 10 then 1 else 0)"
    using "2.IH" [OF refl] by simp
  show ?case
  proof (cases ?rem)
    case Nil
    then have all: "?data = ?line" using data by simp
    then have rest: "?rest = []" by (metis drop_all le_add1)
    have c0: "count_list ?data 10 = 0" using no all count_list_zero by metis
    have "last ?data \<in> set ?line" using all by (metis last_in_set list.discI)
    then have "last ?data \<noteq> 10" using no by metis
    with lt ih rest c0 show ?thesis by simp
  next
    case (Cons r rs)
    then have r: "r = 10" by (metis (mono_tags, lifting) dropWhile_eq_Cons_conv)
    have rest: "?rest = rs"
    proof -
      have "drop (length ?line + 1) (?line @ r # rs) = rs" by simp
      then show ?thesis using data Cons by metis
    qed
    have d2: "?data = ?line @ 10 # rs" using data Cons r by metis
    have cnt: "count_list ?data 10 = 1 + count_list rs 10"
      by (rule count_list_split [OF d2 no])
    have lst: "(last ?data \<noteq> 10) = (rs \<noteq> [] \<and> last rs \<noteq> 10)"
      by (rule last_split [OF d2])
    from lt ih show ?thesis unfolding rest cnt using lst by simp
  qed
qed

lemma count_words_line_table: "count_words data = of_nat (length (line_table 0 data))"
proof -
  show ?thesis
  proof (cases "data = []")
    case True
    then show ?thesis by (simp add: count_words_def line_table.simps)
  next
    case False
    then have "data ! (length data - 1) = last data"
      by (simp add: last_conv_nth)
    with False show ?thesis
      by (simp add: count_words_def Let_def count_newlines_count line_table_length)
  qed
qed

lemma build_word_index_result:
  assumes "length (line_table 0 data) \<le> SIZE_MAX div 8"
  shows "build_word_index ctx data =
     (if data = [] then Inl WordlistEmpty
      else Inr (ctx\<lparr>word_count := of_nat (length (line_table 0 data)),
                    word_offsets := map (\<lambda>e. of_nat (fst e)) (line_table 0 data),
                    word_lengths := map (\<lambda>e. of_nat (snd e)) (line_table 0 data)\<rparr>))"
proof -
  let ?LT = "line_table 0 data"
  let ?n = "length ?LT"
  have un: "unat (of_nat ?n :: u64) = ?n"
    using assms by (simp add: unat_of_nat SIZE_MAX_def)
  show ?thesis
  proof (cases "data = []")
    case True
    then show ?thesis
      by (simp add: build_word_index_def count_words_line_table line_table.simps)
  next
    case False
    then have npos: "0 < ?n" by (cases data) (simp_all add: line_table.simps Let_def)
    then have nz: "(of_nat ?n :: u64) \<noteq> 0" using un by (metis less_numeral_extra(3) unat_0)
    have ra: "record_all data 0 0 0 (replicate ?n 0, replicate ?n 0)
              = Inr (put_entries 0 ?LT (replicate ?n 0, replicate ?n 0))"
      using record_all_table [of 0 0 data 0 "(replicate ?n 0, replicate ?n 0)"] by simp
    have pe: "put_entries 0 ?LT (replicate ?n 0, replicate ?n 0)
              = (map (\<lambda>e. of_nat (fst e)) ?LT, map (\<lambda>e. of_nat (snd e)) ?LT)"
      by (simp add: put_entries_def)
    from ra obtain w ls tabs where
      rl: "record_lines data 0 0 0 (replicate ?n 0, replicate ?n 0) = Inr (w, ls, tabs)"
      by (auto simp: record_all_def split: sum.splits)
    show ?thesis
    proof (cases "ls < length data")
      case True
      with ra rl pe have "record_word w ls (strip_cr data ls (length data - ls)) tabs
          = Inr (map (\<lambda>e. of_nat (fst e)) ?LT, map (\<lambda>e. of_nat (snd e)) ?LT)"
        by (simp add: record_all_def)
      with rl True False nz un assms show ?thesis
        by (simp add: build_word_index_def count_words_line_table Let_def)
    next
      case nl: False
      with ra rl pe have "tabs = (map (\<lambda>e. of_nat (fst e)) ?LT, map (\<lambda>e. of_nat (snd e)) ?LT)"
        by (simp add: record_all_def)
      with rl nl False nz un assms show ?thesis
        by (simp add: build_word_index_def count_words_line_table Let_def)
    qed
  qed
qed

lemma line_table_length_le: "length (line_table s data) \<le> length data"
proof -
  have "count_list data 10 + (if data \<noteq> [] \<and> last data \<noteq> 10 then 1 else 0) \<le> length data"
  proof (induction data rule: rev_induct)
    case Nil
    then show ?case by simp
  next
    case (snoc x xs)
    have "count_list xs 10 \<le> length xs" by (rule count_le_length)
    then show ?case by (simp add: count_list_append)
  qed
  then show ?thesis by (simp add: line_table_length)
qed

lemma thread_init_ok:
  assumes "compiled ctx" "data \<noteq> []"
  shows "\<exists>t. thread_init ctx (Some data) = Inr t \<and> fd_mem t = data \<and> current_word_idx t = 0 \<and>
             current_mask_idx t = 0 \<and> current_offset t = 0 \<and> valid_digits ctx (mask_indices t) \<and>
             index_to_mask_indices ctx 0 (replicate PATTERN_MAX_POSITIONS 0) = Inr (mask_indices t)"
proof -
  from index_to_mask_indices_digits [OF assms(1), of "replicate PATTERN_MAX_POSITIONS 0" 0]
  obtain d where "index_to_mask_indices ctx 0 (replicate PATTERN_MAX_POSITIONS 0) = Inr d"
    "valid_digits ctx d" by auto
  with assms(2) show ?thesis by (simp add: thread_init_def)
qed

lemma global_keyspace_ok:
  assumes "compiled ctx0" "data \<noteq> []" "length data \<le> SIZE_MAX div 8"
  shows "\<exists>ctx. global_keyspace ctx0 (Some data) = Inr ctx \<and>
           word_count ctx = of_nat (length (line_table 0 data)) \<and>
           word_offsets ctx = map (\<lambda>e. of_nat (fst e)) (line_table 0 data) \<and>
           word_lengths ctx = map (\<lambda>e. of_nat (snd e)) (line_table 0 data)"
proof -
  from thread_init_ok [OF assms(1,2)] obtain t where
    t: "thread_init ctx0 (Some data) = Inr t" "fd_mem t = data" by blast
  have "length (line_table 0 data) \<le> SIZE_MAX div 8"
    using line_table_length_le [of 0 data] assms(3) by linarith
  from build_word_index_result [OF this, of ctx0] assms(2) t show ?thesis
    by (simp add: global_keyspace_def set_keyspace_def Let_def)
qed

lemma example_line_table: "line_table 0 example_file = [(0, 2), (3, 1)]"
  by (simp add: example_file_def line_table.simps Let_def trimmed_length_def)

lemma example_compiled_ok: "compiled example_compiled"
  by (rule global_init_ok [OF example_global_init])

lemma word_eq_unat: "unat (x :: u64) = n \<Longrightarrow> n < 18446744073709551616 \<Longrightarrow> x = of_nat n"
  by (auto simp: word_unat_eq_iff unat_of_nat)

lemma example_global_keyspace:
  "global_keyspace example_compiled (Some example_file) = Inr example_indexed"
proof -
  have ne: "example_file \<noteq> []" "length example_file \<le> SIZE_MAX div 8"
    by (simp_all add: example_file_def SIZE_MAX_def)
  from global_keyspace_ok [OF example_compiled_ok ne] obtain ctx where
    gk: "global_keyspace example_compiled (Some example_file) = Inr ctx"
    and w: "word_count ctx = 2" "word_offsets ctx = [0, 3]" "word_lengths ctx = [2, 1]"
    by (auto simp: example_line_table)
  have ix: "indexed example_compiled ctx" by (rule global_keyspace_indexed [OF gk])
  have c: "compiled ctx"
    using ix example_compiled_ok by (auto simp: indexed_def intro: compiled_cong)
  have "mask_product ctx = 10"
    using ix example_mask_product by (simp add: mask_product_def indexed_def)
  then have "unat (mask_keyspace ctx) = 10"
    using compiled_mask_keyspace [OF c] ix by (simp add: indexed_def)
  then have mk: "mask_keyspace ctx = 10" using word_eq_unat [of "mask_keyspace ctx" 10] by simp
  have tk: "total_keyspace ctx = 20"
    using ix mk w(1) by (simp add: indexed_def UINT64_MAX_def)
  from gk obtain t c1 where "thread_init example_compiled (Some example_file) = Inr t"
    "build_word_index example_compiled (fd_mem t) = Inr c1"
    "ctx = set_keyspace (c1\<lparr>file_size := of_nat (length (fd_mem t))\<rparr>)"
    by (auto simp: global_keyspace_def split: sum.splits)
  moreover from this(1) have "fd_mem t = example_file"
    by (auto simp: thread_init_def split: if_splits sum.splits)
  moreover from build_word_index_frame [OF calculation(2)] obtain offs lens where
    "c1 = example_compiled\<lparr>word_count := count_words (fd_mem t), word_offsets := offs,
                             word_lengths := lens\<rparr>" by blast
  ultimately have "ctx = example_compiled\<lparr>word_count := word_count ctx, mask_keyspace := mask_keyspace ctx,
       total_keyspace := total_keyspace ctx, word_offsets := word_offsets ctx,
       word_lengths := word_lengths ctx, file_size := 6\<rparr>"
    by (simp add: set_keyspace_def Let_def example_file_def)
  then have "ctx = example_indexed"
    by (simp add: example_indexed_def w mk tk)
  with gk show ?thesis by simp
qed


text \<open>
  C2. For every compiled pattern, \<open>mask_keyspace\<close> is the product of the charset sizes of
  the non-word positions when that product fits in 64 unsigned bits, and the maximum 64-bit
  value otherwise; \<open>total_keyspace\<close> is the word count times \<open>mask_keyspace\<close> under the
  same rule.
\<close>

theorem keyspace_saturating_product:
  assumes "global_init workv = Inr ctx0" and "global_keyspace ctx0 file = Inr ctx"
  shows "unat (mask_keyspace ctx) = min (mask_product ctx0) (2 ^ 64 - 1) \<and>
         unat (total_keyspace ctx) = min (unat (word_count ctx) * unat (mask_keyspace ctx)) (2 ^ 64 - 1)"
proof -
  have c0: "compiled ctx0" by (rule global_init_ok [OF assms(1)])
  have ix: "indexed ctx0 ctx" by (rule global_keyspace_indexed [OF assms(2)])
  then have c: "compiled ctx" using c0 by (auto simp: indexed_def intro: compiled_cong)
  have mp: "mask_product ctx = mask_product ctx0"
    using ix by (simp add: mask_product_def indexed_def)
  have mk: "unat (mask_keyspace ctx) = min (mask_product ctx0) 18446744073709551615"
    using ix compiled_mask_keyspace [OF c] mp by (simp add: indexed_def)
  have "0 < unat (mask_keyspace ctx)"
    using mk mask_product_pos [OF c0] by simp
  then have nz: "mask_keyspace ctx \<noteq> 0" by (simp add: unat_gt_0)
  have "unat (total_keyspace ctx) = min (unat (word_count ctx) * unat (mask_keyspace ctx)) 18446744073709551615"
    using ix total_keyspace_value [OF nz, of "word_count ctx"] by (simp add: indexed_def)
  with mk show ?thesis by simp
qed

theorem keyspace_saturating_product_witness:
  "global_init [''plugin'', ''?d?W!'', ''words''] = Inr example_compiled \<and>
   global_keyspace example_compiled (Some example_file) = Inr example_indexed \<and>
   unat (mask_keyspace example_indexed) = min (mask_product example_compiled) (2 ^ 64 - 1) \<and>
   unat (total_keyspace example_indexed)
     = min (unat (word_count example_indexed) * unat (mask_keyspace example_indexed)) (2 ^ 64 - 1)"
  using keyspace_saturating_product [OF example_global_init example_global_keyspace]
    example_global_init example_global_keyspace
  by simp

lemma indexed_mask_keyspace_nonzero:
  assumes "compiled ctx0" "indexed ctx0 ctx"
  shows "mask_keyspace ctx \<noteq> 0" "compiled ctx"
proof -
  show c: "compiled ctx"
    using assms by (auto simp: indexed_def intro: compiled_cong)
  have "unat (mask_keyspace ctx) = min (mask_product ctx) 18446744073709551615"
    using compiled_mask_keyspace [OF c] assms(2) by (simp add: indexed_def)
  then have "0 < unat (mask_keyspace ctx)" using mask_product_pos [OF c] by simp
  then show "mask_keyspace ctx \<noteq> 0" by (simp add: unat_gt_0)
qed

text \<open>
  C1. \<^verbatim>\<open>thread_seek\<close> fails exactly when the offset is not below \<open>total_keyspace\<close>; it
  then returns false, sets the error, and leaves the cursor as it was. For every offset
  below \<open>total_keyspace\<close> it returns true and sets the word index to the quotient and the
  mask index to the remainder of the offset by \<open>mask_keyspace\<close>, the linear offset to the
  offset, and the digit array to what \<^verbatim>\<open>index_to_mask_indices\<close> gives for the mask index.
\<close>

theorem thread_seek_characterisation:
  assumes "global_init workv = Inr ctx0" and "global_keyspace ctx0 file = Inr ctx"
    and "length (mask_indices tctx) = PATTERN_MAX_POSITIONS"
  shows "\<exists>ind. index_to_mask_indices ctx (offset mod mask_keyspace ctx) (mask_indices tctx) = Inr ind \<and>
           thread_seek global_ctx ctx tctx offset =
             (if offset \<ge> total_keyspace ctx
              then Inr (False, global_ctx\<lparr>error := True,
                          error_msg := Some (SeekPastKeyspace offset (total_keyspace ctx))\<rparr>, tctx)
              else Inr (True, global_ctx,
                        tctx\<lparr>current_word_idx := offset div mask_keyspace ctx,
                             current_mask_idx := offset mod mask_keyspace ctx,
                             current_offset := offset, mask_indices := ind\<rparr>))"
proof -
  have c0: "compiled ctx0" by (rule global_init_ok [OF assms(1)])
  have ix: "indexed ctx0 ctx" by (rule global_keyspace_indexed [OF assms(2)])
  note nz = indexed_mask_keyspace_nonzero [OF c0 ix]
  from index_to_mask_indices_digits [OF nz(2) assms(3), of "offset mod mask_keyspace ctx"]
  obtain ind where
    "index_to_mask_indices ctx (offset mod mask_keyspace ctx) (mask_indices tctx) = Inr ind"
    by blast
  with nz(1) show ?thesis
    by (auto simp: thread_seek_def error_set_def Let_def)
qed

text \<open>
  C10. Every seek that is accepted leaves the cursor with the word index below the word
  count and the mask index below \<open>mask_keyspace\<close>, also where \<open>total_keyspace\<close> is
  saturated; the word index is then within the two tables of the word index.
\<close>

theorem thread_seek_in_bounds:
  assumes "global_init workv = Inr ctx0" and "global_keyspace ctx0 file = Inr ctx"
    and "length (mask_indices tctx) = PATTERN_MAX_POSITIONS"
    and "offset < total_keyspace ctx"
  shows "\<exists>tctx'. thread_seek global_ctx ctx tctx offset = Inr (True, global_ctx, tctx') \<and>
           current_word_idx tctx' < word_count ctx \<and>
           current_mask_idx tctx' < mask_keyspace ctx \<and>
           unat (current_word_idx tctx') < length (word_offsets ctx) \<and>
           unat (current_word_idx tctx') < length (word_lengths ctx)"
proof -
  have c0: "compiled ctx0" by (rule global_init_ok [OF assms(1)])
  have ix: "indexed ctx0 ctx" by (rule global_keyspace_indexed [OF assms(2)])
  note nz = indexed_mask_keyspace_nonzero [OF c0 ix]
  let ?mk = "mask_keyspace ctx" and ?wc = "word_count ctx"
  have mk: "0 < unat ?mk" using nz(1) by (simp add: unat_gt_0)
  from index_to_mask_indices_digits [OF nz(2) assms(3), of "offset mod ?mk"]
  obtain ind where
    ind: "index_to_mask_indices ctx (offset mod ?mk) (mask_indices tctx) = Inr ind"
    by blast
  let ?t = "tctx\<lparr>current_word_idx := offset div ?mk, current_mask_idx := offset mod ?mk,
                  current_offset := offset, mask_indices := ind\<rparr>"
  have seek: "thread_seek global_ctx ctx tctx offset = Inr (True, global_ctx, ?t)"
    using assms(4) nz(1) ind by (simp add: thread_seek_def Let_def not_le [symmetric])
  have m: "offset mod ?mk < ?mk"
    using mk by (simp add: word_less_nat_alt unat_mod)
  have w: "offset div ?mk < ?wc"
  proof (cases "?wc > UINT64_MAX div ?mk")
    case True
    then have "18446744073709551615 div unat ?mk < unat ?wc"
      by (simp add: word_less_nat_alt u64_div_max [OF nz(1)])
    moreover have "unat offset div unat ?mk \<le> 18446744073709551615 div unat ?mk"
      using unat_u64_bound [of offset] by (rule div_le_mono)
    ultimately show ?thesis by (simp add: word_less_nat_alt unat_div)
  next
    case False
    then have small: "unat ?mk * unat ?wc \<le> 18446744073709551615"
      using overflow_test [OF nz(1), of ?wc] by simp
    have "total_keyspace ctx = ?wc * ?mk" using ix False by (simp add: indexed_def)
    then have "unat (total_keyspace ctx) = unat ?wc * unat ?mk"
      using unat_mult_exact [of ?wc ?mk] small by (simp add: mult.commute)
    then have "unat offset < unat ?wc * unat ?mk"
      using assms(4) by (simp add: word_less_nat_alt)
    then have "unat offset div unat ?mk < unat ?wc"
      using mk by (simp add: less_mult_imp_div_less)
    then show ?thesis by (simp add: word_less_nat_alt unat_div)
  qed
  have len: "length (word_offsets ctx) = unat ?wc" "length (word_lengths ctx) = unat ?wc"
    using ix by (simp_all add: indexed_def)
  from seek m w len show ?thesis
    by (intro exI [of _ ?t]) (simp add: word_less_nat_alt)
qed

lemma example_fields:
  "mask_keyspace example_indexed = 10" "total_keyspace example_indexed = 20"
  "word_count example_indexed = 2" "num_positions example_indexed = 3"
  "word_position example_indexed = 1"
  "word_offsets example_indexed = [0, 3]" "word_lengths example_indexed = [2, 1]"
  "positions example_indexed = positions example_compiled"
  by (simp_all add: example_indexed_def example_compiled_def)

lemma example_cursor_length: "length (mask_indices example_cursor) = PATTERN_MAX_POSITIONS"
  by (simp add: example_cursor_def PATTERN_MAX_POSITIONS_def)

lemma example_digits_3:
  "index_to_mask_indices example_indexed 3 (replicate 32 0) = Inr ([3, 0, 0] @ replicate 29 0)"
proof -
  have n: "index_to_mask_indices_loop ps 3 r ind
           = index_to_mask_indices_loop ps (Suc (Suc (Suc 0))) r ind" for ps r ind
    by (simp only: numeral_3_eq_3)
  show ?thesis
    by (simp add: index_to_mask_indices_def example_fields n replicate_32 example_compiled_def)
qed

theorem thread_seek_characterisation_witness:
  "global_init [''plugin'', ''?d?W!'', ''words''] = Inr example_compiled \<and>
   global_keyspace example_compiled (Some example_file) = Inr example_indexed \<and>
   length (mask_indices example_cursor) = PATTERN_MAX_POSITIONS \<and>
   thread_seek no_error example_indexed example_cursor 13 =
     Inr (True, no_error,
          example_cursor\<lparr>current_word_idx := 1, current_mask_idx := 3, current_offset := 13,
                         mask_indices := [3, 0, 0] @ replicate 29 0\<rparr>) \<and>
   thread_seek no_error example_indexed example_cursor 20 =
     Inr (False, no_error\<lparr>error := True, error_msg := Some (SeekPastKeyspace 20 20)\<rparr>,
          example_cursor)"
proof -
  have m: "(13 :: u64) mod 10 = 3" "(13 :: u64) div 10 = 1" by simp_all
  have mi: "mask_indices example_cursor = replicate 32 0" by (simp add: example_cursor_def)
  from thread_seek_characterisation [OF example_global_init example_global_keyspace
      example_cursor_length, of 13 no_error]
  have a: "thread_seek no_error example_indexed example_cursor 13 =
     Inr (True, no_error,
          example_cursor\<lparr>current_word_idx := 1, current_mask_idx := 3, current_offset := 13,
                         mask_indices := [3, 0, 0] @ replicate 29 0\<rparr>)"
    by (auto simp: example_fields m mi example_digits_3)
  from thread_seek_characterisation [OF example_global_init example_global_keyspace
      example_cursor_length, of 20 no_error]
  have b: "thread_seek no_error example_indexed example_cursor 20 =
     Inr (False, no_error\<lparr>error := True, error_msg := Some (SeekPastKeyspace 20 20)\<rparr>,
          example_cursor)"
    by (auto simp: example_fields)
  show ?thesis
    by (intro conjI example_global_init example_global_keyspace example_cursor_length a b)
qed

theorem thread_seek_in_bounds_witness:
  "global_init [''plugin'', ''?d?W!'', ''words''] = Inr example_compiled \<and>
   global_keyspace example_compiled (Some example_file) = Inr example_indexed \<and>
   length (mask_indices example_cursor) = PATTERN_MAX_POSITIONS \<and>
   (13 :: u64) < total_keyspace example_indexed \<and>
   (\<exists>tctx'. thread_seek no_error example_indexed example_cursor 13 = Inr (True, no_error, tctx') \<and>
      current_word_idx tctx' < word_count example_indexed \<and>
      current_mask_idx tctx' < mask_keyspace example_indexed \<and>
      unat (current_word_idx tctx') < length (word_offsets example_indexed) \<and>
      unat (current_word_idx tctx') < length (word_lengths example_indexed))"
proof -
  have lt: "(13 :: u64) < total_keyspace example_indexed" by (simp add: example_fields)
  from thread_seek_in_bounds [OF example_global_init example_global_keyspace
      example_cursor_length lt, of no_error]
  show ?thesis
    by (intro conjI example_global_init example_global_keyspace example_cursor_length lt)
qed

end
